theory Spec2Isabelle
  imports Complex_Main "HOL-Library.Char_ord" "HOL-Library.List_Lexorder"
    "HOL-Library.Product_Lexorder"
begin

section \<open>Scalar resource quantities (sorter.hpp, class ScalarResourceQuantities)\<close>

text \<open>
  \<^verbatim>\<open>Value::Scalar\<close> is a message type declared outside sorter.hpp. The class uses two
  things of it: the default constructor \<^verbatim>\<open>Value::Scalar()\<close>, whose \<^verbatim>\<open>value()\<close> is 0.0,
  and the comparison \<^verbatim>\<open>value() > 0.0\<close>. The payload type is therefore a type parameter
  \<open>'d\<close> with a zero and an order.

  Resource names are \<^verbatim>\<open>std::string\<close>s; \<^verbatim>\<open>operator==\<close> and \<^verbatim>\<open>operator>\<close> on them are
  equality and the lexicographic order on byte sequences, which is the order of
  \<open>char list\<close> given by \<open>Char_ord\<close> and \<open>List_Lexorder\<close>.
\<close>

datatype 'd Scalar = Scalar (value_of: 'd)

text \<open>
  The only data member: \<^verbatim>\<open>std::vector<std::pair<std::string, Value::Scalar>> quantities\<close>.
  The constructor only reserves capacity, so the vector starts empty.
\<close>

record 'd ScalarResourceQuantities =
  quantities :: "(string \<times> 'd Scalar) list"

definition ScalarResourceQuantities_init :: "'d ScalarResourceQuantities" where
  "ScalarResourceQuantities_init = \<lparr>quantities = []\<rparr>"

text \<open>\<^verbatim>\<open>LOG(FATAL)\<close> aborts the process; the abort is a value carrying the logged message.\<close>

datatype error = Fatal string

text \<open>
  \<^verbatim>\<open>contains\<close>: the \<^verbatim>\<open>foreach\<close> over the vector returns at the first pair whose name
  matches, and \<^verbatim>\<open>false\<close> after the last pair.
\<close>

fun contains_loop :: "string \<Rightarrow> (string \<times> 'd::{zero,ord} Scalar) list \<Rightarrow> bool" where
  "contains_loop name [] = False"
| "contains_loop name (quantity # rest) =
     (if fst quantity = name then value_of (snd quantity) > 0
      else contains_loop name rest)"

definition contains :: "'d::{zero,ord} ScalarResourceQuantities \<Rightarrow> string \<Rightarrow> bool" where
  "contains m name = contains_loop name (quantities m)"

text \<open>
  \<^verbatim>\<open>at\<close>: the same scan, returning the scalar of the first match; falling out of the loop
  reaches \<^verbatim>\<open>LOG(FATAL) << "Failed to find '" << name << "'"\<close>.
\<close>

definition at_failure :: "string \<Rightarrow> error" where
  "at_failure name = Fatal (''Failed to find '' @ [CHR 0x27] @ name @ [CHR 0x27])"

fun at_loop :: "string \<Rightarrow> (string \<times> 'd Scalar) list \<Rightarrow> error + 'd Scalar" where
  "at_loop name [] = Inl (at_failure name)"
| "at_loop name (quantity # rest) =
     (if fst quantity = name then Inr (snd quantity) else at_loop name rest)"

definition at_name :: "'d ScalarResourceQuantities \<Rightarrow> string \<Rightarrow> error + 'd Scalar" where
  "at_name m name = at_loop name (quantities m)"

text \<open>
  \<^verbatim>\<open>operator[]\<close>: the iterator \<^verbatim>\<open>it\<close> is the position \<open>i\<close> in the vector. The loop either
  returns the slot at \<open>i\<close> (name found), or stops at the first pair whose name is greater,
  or runs to \<^verbatim>\<open>end()\<close>; in the last two cases \<^verbatim>\<open>quantities.insert(it, ...)\<close> puts
  \<^verbatim>\<open>(name, Value::Scalar())\<close> before position \<open>i\<close>.
\<close>

datatype position = Existing nat | InsertAt nat

fun subscript_loop :: "string \<Rightarrow> (string \<times> 'd Scalar) list \<Rightarrow> nat \<Rightarrow> position" where
  "subscript_loop name [] i = InsertAt i"
| "subscript_loop name (quantity # rest) i =
     (if fst quantity = name then Existing i
      else if fst quantity > name then InsertAt i
      else subscript_loop name rest (Suc i))"

text \<open>
  The returned \<^verbatim>\<open>Value::Scalar&\<close> is the pair of the map after the call and the index of
  the slot the reference points to.
\<close>

definition subscript ::
  "'d::zero ScalarResourceQuantities \<Rightarrow> string \<Rightarrow> 'd ScalarResourceQuantities \<times> nat" where
  "subscript m name =
     (case subscript_loop name (quantities m) 0 of
        Existing i \<Rightarrow> (m, i)
      | InsertAt i \<Rightarrow>
          (m\<lparr>quantities :=
               take i (quantities m) @ (name, Scalar 0) # drop i (quantities m)\<rparr>, i))"

text \<open>
  Reading and writing through a reference to the slot at index \<open>i\<close>, the index that
  \<^verbatim>\<open>operator[]\<close> returned: it is within the vector.
\<close>

definition deref :: "'d ScalarResourceQuantities \<Rightarrow> nat \<Rightarrow> 'd Scalar" where
  "deref m i = snd (quantities m ! i)"

definition assign ::
  "'d ScalarResourceQuantities \<Rightarrow> nat \<Rightarrow> 'd Scalar \<Rightarrow> 'd ScalarResourceQuantities" where
  "assign m i v = m\<lparr>quantities := (quantities m)[i := (fst (quantities m ! i), v)]\<rparr>"

text \<open>
  The class invariant stated in the comment on the data member (``list of scalar
  resources sorted by resource name''): names strictly ascending, hence unique.
\<close>

definition sorted_by_name :: "'d ScalarResourceQuantities \<Rightarrow> bool" where
  "sorted_by_name m = sorted_wrt (<) (map fst (quantities m))"

text \<open>
  The maps a program can build: the constructor, then any number of \<^verbatim>\<open>operator[]\<close>
  calls and writes through the references they return.
\<close>

inductive reachable :: "'d::zero ScalarResourceQuantities \<Rightarrow> bool" where
  reach_init: "reachable ScalarResourceQuantities_init"
| reach_index: "reachable m \<Longrightarrow> reachable (fst (subscript m name))"
| reach_write: "reachable m \<Longrightarrow> subscript m name = (m', i) \<Longrightarrow> reachable (assign m' i v)"

text \<open>A concrete map used to instantiate the theorems below.\<close>

definition example_map :: "real ScalarResourceQuantities" where
  "example_map = \<lparr>quantities = [(''cpus'', Scalar 2), (''mem'', Scalar 0)]\<rparr>"

definition example_map_gpus :: "real ScalarResourceQuantities" where
  "example_map_gpus =
     \<lparr>quantities = [(''cpus'', Scalar 2), (''gpus'', Scalar 0), (''mem'', Scalar 0)]\<rparr>"

section \<open>The Sorter (sorter.hpp, class Sorter)\<close>

text \<open>
  Every member function of \<^verbatim>\<open>Sorter\<close> is pure virtual in sorter.hpp: the header fixes the
  signatures and their comments, and the sorters that implement it are not part of the
  sources at hand. \<^verbatim>\<open>Resources\<close> and \<^verbatim>\<open>SlaveID\<close> are declared elsewhere as well. The
  definitions of this section are therefore modelled from the specification document;
  each says which of its sentences it follows. Client names and agent ids are strings;
  quantities are real numbers (the specification asks for drift-free arithmetic).
\<close>

text \<open>
  Modelled from the spec: the type \<^verbatim>\<open>Resources\<close>, missing from the sources. The
  specification gives a resource a name, a scalar amount and reservation/volume metadata
  (``stripped quantity: scalar resource amount excluding reservation/volume metadata'').
  A value is a sequence of entries keyed by (name, metadata), sorted by key, with the
  amount of each; the empty sequence is the empty \<^verbatim>\<open>Resources\<close>.
\<close>

type_synonym Resources = "((string \<times> string) \<times> real) list"

text \<open>
  Modelled from the spec: the sum of two \<^verbatim>\<open>Resources\<close>, missing from the sources:
  ``arithmetic (sum, difference, scalar comparison) is defined entrywise over the union
  of names, treating missing entries as zero'', by co-iteration over the sorted entries.
\<close>

fun res_add :: "Resources \<Rightarrow> Resources \<Rightarrow> Resources" where
  "res_add [] R = R"
| "res_add A [] = A"
| "res_add ((k, a) # A) ((j, r) # R) =
     (if k < j then (k, a) # res_add A ((j, r) # R)
      else if j < k then (j, r) # res_add ((k, a) # A) R
      else (k, a + r) # res_add A R)"

text \<open>
  Modelled from the spec: the difference of two \<^verbatim>\<open>Resources\<close>, missing from the sources,
  entrywise by the same co-iteration. An entry stays only while its amount is positive,
  so that a record from which everything was subtracted is the empty \<^verbatim>\<open>Resources\<close>
  (``\<^verbatim>\<open>allocation(client, node)\<close>: resources for exactly that pair, empty if none'').
\<close>

fun res_sub :: "Resources \<Rightarrow> Resources \<Rightarrow> Resources" where
  "res_sub A [] = A"
| "res_sub [] R = []"
| "res_sub ((k, a) # A) ((j, r) # R) =
     (if k < j then (k, a) # res_sub A ((j, r) # R)
      else if j < k then res_sub ((k, a) # A) R
      else if a - r > 0 then (k, a - r) # res_sub A R
      else res_sub A R)"

text \<open>
  Modelled from the spec: the subset test on \<^verbatim>\<open>Resources\<close>, missing from the sources
  (``the resources subtracted must be a subset of what is currently recorded''):
  entrywise comparison, an entry missing on the left counting as zero.
\<close>

fun res_contains :: "Resources \<Rightarrow> Resources \<Rightarrow> bool" where
  "res_contains A [] = True"
| "res_contains [] R = False"
| "res_contains ((k, a) # A) ((j, r) # R) =
     (if k < j then res_contains A ((j, r) # R)
      else if j < k then False
      else r \<le> a \<and> res_contains A R)"

text \<open>
  Modelled from the spec: \<^verbatim>\<open>Resources::createStrippedScalarQuantity\<close>, missing from the
  sources and named in the header's comments: the ``scalar resource amount excluding
  reservation/volume metadata''. The metadata of every entry is cleared and the amounts
  of one name are added up.
\<close>

definition stripped :: "Resources \<Rightarrow> Resources" where
  "stripped R = fold (\<lambda>((name, meta), v) S. res_add S [((name, []), v)]) R []"

text \<open>
  Modelled from the spec: the quantity of one resource name in a stripped
  \<^verbatim>\<open>Resources\<close>; ``a name absent from the map is treated as quantity zero''.
\<close>

definition quantity :: "Resources \<Rightarrow> string \<Rightarrow> real" where
  "quantity S name = (case map_of S (name, []) of Some v \<Rightarrow> v | None \<Rightarrow> 0)"

text \<open>
  Modelled from the spec: role paths, whose handling is missing from the sources:
  ``role path (hierarchical, slash-delimited)''. A path is the list of its components.
\<close>

fun split_path :: "string \<Rightarrow> string list" where
  "split_path [] = [[]]"
| "split_path (c # cs) =
     (if c = CHR ''/'' then [] # split_path cs
      else (case split_path cs of [] \<Rightarrow> [[c]] | w # ws \<Rightarrow> (c # w) # ws))"

text \<open>
  Modelled from the spec: the effective weight lookup, missing from the sources:
  it ``walks from the client's full path toward the root, returning the first explicit
  entry found, defaulting to 1.0''. The third argument is the number of leading
  components of the path still to be tried, the longest prefix first.
\<close>

fun weight_walk :: "(string list \<rightharpoonup> real) \<Rightarrow> string list \<Rightarrow> nat \<Rightarrow> real" where
  "weight_walk W path 0 = 1"
| "weight_walk W path (Suc k) =
     (case W (take (Suc k) path) of Some w \<Rightarrow> w | None \<Rightarrow> weight_walk W path k)"

text \<open>
  Modelled from the spec: the per-client state, missing from the sources:
  ``active/inactive flag, \<dots> per-node allocation map, \<dots> cached scalar-quantity total
  excluding dynamic-reservation/volume metadata'', and the cached share that \<^verbatim>\<open>sort()\<close>
  recomputes (``cached per-client share values constitute mutable derived state'').
  A node without allocation maps to the empty \<^verbatim>\<open>Resources\<close>.
\<close>

record Client =
  active :: bool
  allocation :: "string \<Rightarrow> Resources"
  scalarQuantities :: Resources
  share :: real

text \<open>
  Modelled from the spec: the state of a sorter, missing from the sources: whether
  \<^verbatim>\<open>initialize\<close> has run, the resource names it excluded, the clients in the order
  they were added, the ``role-path weight entries'' and the ``pool total''.
\<close>

record Sorter =
  initialized :: bool
  fairnessExcludeResourceNames :: "string list"
  clients :: "(string \<times> Client) list"
  weights :: "string list \<rightharpoonup> real"
  total :: Resources

text \<open>
  Modelled from the spec: the fatal report, missing from the sources, of ``calling any
  operation before \<^verbatim>\<open>initialize\<close>'', one of the ``caller-contract violations'' that
  ``must halt execution immediately with a diagnosable fatal report''. The wording of
  the four messages is not specified.
\<close>

definition not_initialized :: error where
  "not_initialized = Fatal ''operation called before initialize''"

text \<open>
  Modelled from the spec: the fatal report, missing from the sources, of a second
  \<^verbatim>\<open>initialize\<close>, which ``must run exactly once before any other call''.
\<close>

definition already_initialized :: error where
  "already_initialized = Fatal ''initialize called twice''"

text \<open>
  Modelled from the spec: the fatal report, missing from the sources, of ``\<^verbatim>\<open>allocated\<close>
  referencing an unknown client''.
\<close>

definition unknown_client :: "string \<Rightarrow> error" where
  "unknown_client c = Fatal (''unknown client '' @ c)"

text \<open>
  Modelled from the spec: the fatal report, missing from the sources, of ``\<^verbatim>\<open>unallocated\<close>
  removing resources never recorded''.
\<close>

definition not_allocated :: "string \<Rightarrow> error" where
  "not_allocated c = Fatal (''resources are not allocated to client '' @ c)"

text \<open>
  Modelled from the spec: a sorter after construction (\<^verbatim>\<open>Sorter() = default\<close> in the
  header; the state it starts from is missing from the sources): not initialized, no
  client, no weight entry, an empty pool.
\<close>

definition Sorter_init :: Sorter where
  "Sorter_init = \<lparr>initialized = False, fairnessExcludeResourceNames = [], clients = [],
     weights = Map.empty, total = []\<rparr>"

text \<open>
  Modelled from the spec: the state of a client that \<^verbatim>\<open>add\<close> creates, missing from the
  sources: inactive (``\<^verbatim>\<open>add\<close> never implicitly activates''), with no allocation.
\<close>

definition new_client :: Client where
  "new_client = \<lparr>active = False, allocation = (\<lambda>n. []), scalarQuantities = [], share = 0\<rparr>"

text \<open>
  Modelled from the spec: the lookup of a client by its ``opaque string key'', missing
  from the sources.
\<close>

definition find_client :: "Sorter \<Rightarrow> string \<Rightarrow> Client option" where
  "find_client s c = map_of (clients s) c"

text \<open>
  Modelled from the spec: the in-place change of one client's state, missing from the
  sources; the other clients and the rest of the sorter stay as they are.
\<close>

definition update_client :: "string \<Rightarrow> (Client \<Rightarrow> Client) \<Rightarrow> Sorter \<Rightarrow> Sorter" where
  "update_client c f s =
     s\<lparr>clients := map (\<lambda>(d, cl). if d = c then (d, f cl) else (d, cl)) (clients s)\<rparr>"

text \<open>
  Modelled from the spec: \<^verbatim>\<open>Sorter::initialize\<close>, pure virtual in the header:
  ``\<^verbatim>\<open>initialize(excludedResourceNames)\<close> must run exactly once before any other call and
  configures which scalar resource names are excluded from dominant-share computation''.
\<close>

definition Sorter_initialize :: "Sorter \<Rightarrow> string list option \<Rightarrow> error + Sorter" where
  "Sorter_initialize s names =
     (if initialized s then Inl already_initialized
      else Inr (s\<lparr>initialized := True,
                  fairnessExcludeResourceNames := (case names of None \<Rightarrow> [] | Some ns \<Rightarrow> ns)\<rparr>))"

text \<open>
  Modelled from the spec: \<^verbatim>\<open>Sorter::add(client)\<close>, pure virtual in the header:
  ``absent \<rightarrow> \<^verbatim>\<open>add\<close> \<rightarrow> inactive'', a no-op on a client that is already present.
\<close>

definition Sorter_add :: "Sorter \<Rightarrow> string \<Rightarrow> error + Sorter" where
  "Sorter_add s c =
     (if \<not> initialized s then Inl not_initialized
      else if find_client s c \<noteq> None then Inr s
      else Inr (s\<lparr>clients := clients s @ [(c, new_client)]\<rparr>))"

text \<open>
  Modelled from the spec: \<^verbatim>\<open>Sorter::remove(client)\<close>, pure virtual in the header:
  ``\<^verbatim>\<open>remove\<close> \<rightarrow> absent'', a no-op on an absent client. The client's records go with
  it (``removal of a client must also purge it from every per-node allocation record'').
\<close>

definition Sorter_remove :: "Sorter \<Rightarrow> string \<Rightarrow> error + Sorter" where
  "Sorter_remove s c =
     (if \<not> initialized s then Inl not_initialized
      else Inr (s\<lparr>clients := filter (\<lambda>(d, cl). d \<noteq> c) (clients s)\<rparr>))"

text \<open>
  Modelled from the spec: \<^verbatim>\<open>Sorter::activate\<close>, pure virtual in the header:
  ``inactive \<rightarrow> \<^verbatim>\<open>activate\<close> \<rightarrow> active'', a no-op on an active client. The
  specification names no failure for a client that is absent; the model leaves the state
  as it is.
\<close>

definition Sorter_activate :: "Sorter \<Rightarrow> string \<Rightarrow> error + Sorter" where
  "Sorter_activate s c =
     (if \<not> initialized s then Inl not_initialized
      else Inr (update_client c (\<lambda>cl. cl\<lparr>active := True\<rparr>) s))"

text \<open>
  Modelled from the spec: \<^verbatim>\<open>Sorter::deactivate\<close>, pure virtual in the header:
  ``active \<rightarrow> \<^verbatim>\<open>deactivate\<close> \<rightarrow> inactive'', a no-op on an inactive client and, as for
  \<^verbatim>\<open>activate\<close>, on an absent one.
\<close>

definition Sorter_deactivate :: "Sorter \<Rightarrow> string \<Rightarrow> error + Sorter" where
  "Sorter_deactivate s c =
     (if \<not> initialized s then Inl not_initialized
      else Inr (update_client c (\<lambda>cl. cl\<lparr>active := False\<rparr>) s))"

text \<open>
  Modelled from the spec: \<^verbatim>\<open>Sorter::updateWeight\<close>, pure virtual in the header:
  ``\<^verbatim>\<open>updateWeight(path, weight)\<close> sets or overwrites the weight at \<^verbatim>\<open>path\<close>''.
\<close>

definition Sorter_updateWeight :: "Sorter \<Rightarrow> string \<Rightarrow> real \<Rightarrow> error + Sorter" where
  "Sorter_updateWeight s path w =
     (if \<not> initialized s then Inl not_initialized
      else Inr (s\<lparr>weights := (weights s)(split_path path \<mapsto> w)\<rparr>))"

text \<open>
  Modelled from the spec: \<^verbatim>\<open>Sorter::allocated\<close>, pure virtual in the header: it ``adds
  \<^verbatim>\<open>resources\<close> to the client's per-node record \<dots>; recomputes the client's cached totals
  by adding the stripped scalar quantity of \<^verbatim>\<open>resources\<close>. Fails \<dots> if \<^verbatim>\<open>client\<close> is
  unknown''. The node's aggregate is the sum of the clients' records for the node and
  has no state of its own.
\<close>

definition Sorter_allocated :: "Sorter \<Rightarrow> string \<Rightarrow> string \<Rightarrow> Resources \<Rightarrow> error + Sorter" where
  "Sorter_allocated s c n R =
     (if \<not> initialized s then Inl not_initialized
      else case find_client s c of
        None \<Rightarrow> Inl (unknown_client c)
      | Some _ \<Rightarrow>
          Inr (update_client c
                 (\<lambda>cl. cl\<lparr>allocation := (allocation cl)(n := res_add (allocation cl n) R),
                          scalarQuantities := res_add (scalarQuantities cl) (stripped R)\<rparr>) s))"

text \<open>
  Modelled from the spec: \<^verbatim>\<open>Sorter::unallocated\<close>, pure virtual in the header: the
  ``inverse of \<^verbatim>\<open>allocated\<close>; the resources subtracted must be a subset of what is
  currently recorded for that (client, node) pair --- violation is a logic error \<dots>
  reported via an assertion-style failure''.
\<close>

definition Sorter_unallocated :: "Sorter \<Rightarrow> string \<Rightarrow> string \<Rightarrow> Resources \<Rightarrow> error + Sorter" where
  "Sorter_unallocated s c n R =
     (if \<not> initialized s then Inl not_initialized
      else case find_client s c of
        None \<Rightarrow> Inl (unknown_client c)
      | Some cl0 \<Rightarrow>
          if \<not> res_contains (allocation cl0 n) R then Inl (not_allocated c)
          else Inr (update_client c
                 (\<lambda>cl. cl\<lparr>allocation := (allocation cl)(n := res_sub (allocation cl n) R),
                          scalarQuantities := res_sub (scalarQuantities cl) (stripped R)\<rparr>) s))"

text \<open>
  Modelled from the spec: \<^verbatim>\<open>Sorter::update\<close>, pure virtual in the header: it
  ``atomically replaces \<^verbatim>\<open>old\<close> with \<^verbatim>\<open>new\<close> for that (client, node); recomputes cached
  totals as \<^verbatim>\<open>total - stripped(old) + stripped(new)\<close>''.
\<close>

definition Sorter_update ::
  "Sorter \<Rightarrow> string \<Rightarrow> string \<Rightarrow> Resources \<Rightarrow> Resources \<Rightarrow> error + Sorter" where
  "Sorter_update s c n oldAllocation newAllocation =
     (if \<not> initialized s then Inl not_initialized
      else case find_client s c of
        None \<Rightarrow> Inl (unknown_client c)
      | Some cl0 \<Rightarrow>
          if \<not> res_contains (allocation cl0 n) oldAllocation then Inl (not_allocated c)
          else Inr (update_client c
                 (\<lambda>cl. cl\<lparr>allocation :=
                            (allocation cl)(n := res_add (res_sub (allocation cl n) oldAllocation)
                                                    newAllocation),
                          scalarQuantities :=
                            res_add (res_sub (scalarQuantities cl) (stripped oldAllocation))
                                    (stripped newAllocation)\<rparr>) s))"

text \<open>
  Modelled from the spec: \<^verbatim>\<open>Sorter::add(slaveId, resources)\<close>, pure virtual in the
  header: the pool total is ``the scalar-quantity sum of all resources added to the
  Sorter via the node-level \<^verbatim>\<open>add\<close>/\<^verbatim>\<open>remove\<close> calls''.
\<close>

definition Sorter_add_resources :: "Sorter \<Rightarrow> string \<Rightarrow> Resources \<Rightarrow> error + Sorter" where
  "Sorter_add_resources s n R =
     (if \<not> initialized s then Inl not_initialized
      else Inr (s\<lparr>total := res_add (total s) (stripped R)\<rparr>))"

text \<open>
  Modelled from the spec: \<^verbatim>\<open>Sorter::remove(slaveId, resources)\<close>, pure virtual in the
  header: the stripped quantity of the resources leaves the pool total. The
  specification names no failure for removing more than was added; the difference keeps
  the amounts that stay positive.
\<close>

definition Sorter_remove_resources :: "Sorter \<Rightarrow> string \<Rightarrow> Resources \<Rightarrow> error + Sorter" where
  "Sorter_remove_resources s n R =
     (if \<not> initialized s then Inl not_initialized
      else Inr (s\<lparr>total := res_sub (total s) (stripped R)\<rparr>))"

text \<open>
  Modelled from the spec: ``every scalar resource name present in the pool total'', in
  the order of the pool total; the enumeration is missing from the sources.
\<close>

definition pool_names :: "Sorter \<Rightarrow> string list" where
  "pool_names s = map (\<lambda>((name, meta), t). name) (total s)"

text \<open>
  Modelled from the spec: what one resource name contributes to a share, missing from
  the sources: ``\<^verbatim>\<open>clientStrippedQuantity(name) / poolTotal(name)\<close> (treat
  \<^verbatim>\<open>poolTotal(name) == 0\<close> as a dominant share contribution of 0 for that name)''.
\<close>

definition contribution :: "Sorter \<Rightarrow> Resources \<Rightarrow> string \<Rightarrow> real" where
  "contribution s Q name =
     (if quantity (total s) name = 0 then 0 else quantity Q name / quantity (total s) name)"

text \<open>
  Modelled from the spec: the share of a stripped quantity, missing from the sources:
  ``the maximum, over every scalar resource name present in the pool total'', of its
  contribution, leaving out the names that \<^verbatim>\<open>initialize\<close> ``excluded from
  dominant-share computation entirely''. The maximum starts from 0, the share of a
  client that holds nothing.
\<close>

definition share_of :: "Sorter \<Rightarrow> Resources \<Rightarrow> real" where
  "share_of s Q =
     fold (\<lambda>name acc.
             if name \<in> set (fairnessExcludeResourceNames s) then acc
             else max acc (contribution s Q name))
          (pool_names s) 0"

text \<open>
  Modelled from the spec: the client's ``cached stripped total'', missing from the
  sources; an absent client holds nothing (``lookup misses \<dots> return an empty/zero
  result'').
\<close>

definition client_quantities :: "Sorter \<Rightarrow> string \<Rightarrow> Resources" where
  "client_quantities s c =
     (case find_client s c of Some cl \<Rightarrow> scalarQuantities cl | None \<Rightarrow> [])"

text \<open>
  Modelled from the spec: the dominant share of a client, missing from the sources: the
  share of its stripped total.
\<close>

definition dominant_share :: "Sorter \<Rightarrow> string \<Rightarrow> real" where
  "dominant_share s c = share_of s (client_quantities s c)"

text \<open>
  Modelled from the spec: the effective weight of a client, missing from the sources:
  ``a client's effective weight is the weight of the most specific ancestor path that
  has an explicit entry, or the default if none''. The client's name is its role path.
\<close>

definition effective_weight :: "Sorter \<Rightarrow> string \<Rightarrow> real" where
  "effective_weight s c =
     weight_walk (weights s) (split_path c) (length (split_path c))"

text \<open>
  Modelled from the spec: the sort key, missing from the sources: ``divide the dominant
  share by the client's effective weight to obtain the weighted dominant share; this is
  the sort key''.
\<close>

definition weighted_share :: "Sorter \<Rightarrow> string \<Rightarrow> real" where
  "weighted_share s c = dominant_share s c / effective_weight s c"

text \<open>
  Modelled from the spec: the dominant share as section 4.4 words it on its own, ``the
  maximum, over every scalar resource name present in the pool total'', with no name
  left out: the second definition, to compare \<open>dominant_share\<close> with.
\<close>

definition dominant_share_all_names :: "Sorter \<Rightarrow> string \<Rightarrow> real" where
  "dominant_share_all_names s c =
     fold (\<lambda>name acc. max acc (contribution s (client_quantities s c) name)) (pool_names s) 0"

text \<open>
  Modelled from the spec: the ``resources allocated to the whole subtree'' of the path a
  client belongs to, missing from the sources: the sum of the stripped totals of the
  clients under the client's parent path.
\<close>

definition subtree_allocation :: "Sorter \<Rightarrow> string \<Rightarrow> Resources" where
  "subtree_allocation s c =
     (let p = butlast (split_path c)
      in fold (\<lambda>(d, cl) acc.
                 if take (length p) (split_path d) = p then res_add acc (scalarQuantities cl)
                 else acc)
              (clients s) [])"

text \<open>
  Modelled from the spec: the first tie-break of the ordering, missing from the sources:
  ``clients belonging to a path with fewer resources allocated to the whole subtree sort
  first (\<dots> a subtree is treated as a single aggregate client at its level)''. The
  subtree's resources are measured as an aggregate client's would be, by their share.
\<close>

definition subtree_share :: "Sorter \<Rightarrow> string \<Rightarrow> real" where
  "subtree_share s c = share_of s (subtree_allocation s c)"

text \<open>
  Modelled from the spec: reading a client's cached share, missing from the sources
  (``cached per-client share values constitute mutable derived state'').
\<close>

definition cached_share :: "Sorter \<Rightarrow> string \<Rightarrow> real" where
  "cached_share s c = (case find_client s c of Some cl \<Rightarrow> share cl | None \<Rightarrow> 0)"

text \<open>
  Modelled from the spec: the recomputation of the cached shares that \<^verbatim>\<open>sort()\<close> starts
  with, missing from the sources: ``for each active client, compute its dominant
  share'', ``recomputing shares each call''.
\<close>

definition recompute_shares :: "Sorter \<Rightarrow> Sorter" where
  "recompute_shares s =
     s\<lparr>clients :=
         map (\<lambda>(c, cl). (c, if active cl then cl\<lparr>share := weighted_share s c\<rparr> else cl))
             (clients s)\<rparr>"

text \<open>
  Modelled from the spec: the active clients, in the order they were added; the
  enumeration is missing from the sources.
\<close>

definition active_clients :: "Sorter \<Rightarrow> string list" where
  "active_clients s = map fst (filter (\<lambda>(c, cl). active cl) (clients s))"

text \<open>
  Modelled from the spec: \<^verbatim>\<open>Sorter::sort\<close>, pure virtual in the header. It recomputes
  the shares, keeps them in the clients' cached share, and ``returns exactly the active
  clients'' in ``ascending weighted dominant share'', ties broken by the subtree's share
  and then by ``lexicographic order of client identifier''. The function returns the
  order and the state with the recomputed shares.
\<close>

definition Sorter_sort :: "Sorter \<Rightarrow> error + (string list \<times> Sorter)" where
  "Sorter_sort s =
     (if \<not> initialized s then Inl not_initialized
      else let s' = recompute_shares s
           in Inr (sort_key (\<lambda>c. (cached_share s' c, subtree_share s' c, c)) (active_clients s'),
                   s'))"

text \<open>
  Modelled from the spec: \<^verbatim>\<open>Sorter::contains\<close>, pure virtual in the header: true for a
  client ``present in the Sorter'', ``active or inactive''.
\<close>

definition Sorter_contains :: "Sorter \<Rightarrow> string \<Rightarrow> error + bool" where
  "Sorter_contains s c =
     (if \<not> initialized s then Inl not_initialized else Inr (find_client s c \<noteq> None))"

text \<open>
  Modelled from the spec: \<^verbatim>\<open>Sorter::count\<close>, pure virtual in the header: a client
  ``present in the Sorter is either active or inactive but always counted by
  \<^verbatim>\<open>count()\<close>''.
\<close>

definition Sorter_count :: "Sorter \<Rightarrow> error + nat" where
  "Sorter_count s =
     (if \<not> initialized s then Inl not_initialized else Inr (length (clients s)))"

text \<open>
  Modelled from the spec: \<^verbatim>\<open>Sorter::allocation(client, slaveId)\<close>, pure virtual in the
  header: ``resources for exactly that pair, empty if none''.
\<close>

definition Sorter_allocation :: "Sorter \<Rightarrow> string \<Rightarrow> string \<Rightarrow> error + Resources" where
  "Sorter_allocation s c n =
     (if \<not> initialized s then Inl not_initialized
      else Inr (case find_client s c of Some cl \<Rightarrow> allocation cl n | None \<Rightarrow> []))"

text \<open>
  Modelled from the spec: \<^verbatim>\<open>Sorter::allocationScalarQuantities\<close>, pure virtual in the
  header: the client's ``cached stripped total''.
\<close>

definition Sorter_allocationScalarQuantities :: "Sorter \<Rightarrow> string \<Rightarrow> error + Resources" where
  "Sorter_allocationScalarQuantities s c =
     (if \<not> initialized s then Inl not_initialized else Inr (client_quantities s c))"

text \<open>
  Modelled from the spec: \<^verbatim>\<open>Sorter::totalScalarQuantities\<close>, pure virtual in the header:
  the pool total.
\<close>

definition Sorter_totalScalarQuantities :: "Sorter \<Rightarrow> error + Resources" where
  "Sorter_totalScalarQuantities s =
     (if \<not> initialized s then Inl not_initialized else Inr (total s))"

text \<open>
  Modelled from the spec: the calls a caller can issue, one constructor for each
  operation of the facade that can change the state (``\<^verbatim>\<open>add\<close>, \<^verbatim>\<open>remove\<close>,
  \<^verbatim>\<open>activate\<close>, \<^verbatim>\<open>deactivate\<close>, \<^verbatim>\<open>updateWeight\<close>, \<^verbatim>\<open>allocated\<close>, \<^verbatim>\<open>update\<close>,
  \<^verbatim>\<open>unallocated\<close>'', the node-level \<^verbatim>\<open>add\<close> and \<^verbatim>\<open>remove\<close>, \<^verbatim>\<open>initialize\<close>, and
  \<^verbatim>\<open>sort\<close>, which rewrites the cached shares).
\<close>

datatype operation =
    Initialize "string list option"
  | AddClient string
  | RemoveClient string
  | Activate string
  | Deactivate string
  | UpdateWeight string real
  | Allocated string string Resources
  | Update string string Resources Resources
  | Unallocated string string Resources
  | AddResources string Resources
  | RemoveResources string Resources
  | Sort

text \<open>
  Modelled from the spec: the effect of one call on the state; the implementations it
  dispatches to are missing from the sources.
\<close>

fun step :: "Sorter \<Rightarrow> operation \<Rightarrow> error + Sorter" where
  "step s (Initialize names) = Sorter_initialize s names"
| "step s (AddClient c) = Sorter_add s c"
| "step s (RemoveClient c) = Sorter_remove s c"
| "step s (Activate c) = Sorter_activate s c"
| "step s (Deactivate c) = Sorter_deactivate s c"
| "step s (UpdateWeight path w) = Sorter_updateWeight s path w"
| "step s (Allocated c n R) = Sorter_allocated s c n R"
| "step s (Update c n old new) = Sorter_update s c n old new"
| "step s (Unallocated c n R) = Sorter_unallocated s c n R"
| "step s (AddResources n R) = Sorter_add_resources s n R"
| "step s (RemoveResources n R) = Sorter_remove_resources s n R"
| "step s Sort = (case Sorter_sort s of Inl e \<Rightarrow> Inl e | Inr (order, s') \<Rightarrow> Inr s')"

text \<open>
  Modelled from the spec: a sequence of calls, taking ``effect atomically and in the
  exact order issued by the caller''. A fatal report ends the run.
\<close>

fun run :: "Sorter \<Rightarrow> operation list \<Rightarrow> error + Sorter" where
  "run s [] = Inr s"
| "run s (x # xs) = (case step s x of Inl e \<Rightarrow> Inl e | Inr s' \<Rightarrow> run s' xs)"

text \<open>
  Modelled from the spec: what \<^verbatim>\<open>sort()\<close> returns after a sequence of calls on a newly
  constructed sorter.
\<close>

definition sort_after :: "operation list \<Rightarrow> error + string list" where
  "sort_after ops =
     (case run Sorter_init ops of
        Inl e \<Rightarrow> Inl e
      | Inr s \<Rightarrow> (case Sorter_sort s of Inl e \<Rightarrow> Inl e | Inr (order, s') \<Rightarrow> Inr order))"

text \<open>
  Modelled from the spec: a client's dominant share after a sequence of calls on a newly
  constructed sorter.
\<close>

definition dominant_share_after :: "operation list \<Rightarrow> string \<Rightarrow> error + real" where
  "dominant_share_after ops c =
     (case run Sorter_init ops of Inl e \<Rightarrow> Inl e | Inr s \<Rightarrow> Inr (dominant_share s c))"

text \<open>
  Modelled from the spec: the dominant share as section 4.4 words it on its own, after a
  sequence of calls on a newly constructed sorter.
\<close>

definition dominant_share_all_names_after :: "operation list \<Rightarrow> string \<Rightarrow> error + real" where
  "dominant_share_all_names_after ops c =
     (case run Sorter_init ops of Inl e \<Rightarrow> Inl e | Inr s \<Rightarrow> Inr (dominant_share_all_names s c))"

text \<open>
  Modelled from the spec: what \<^verbatim>\<open>allocation(client, node)\<close> returns after a sequence of
  calls on a newly constructed sorter.
\<close>

definition allocation_after ::
  "operation list \<Rightarrow> string \<Rightarrow> string \<Rightarrow> error + Resources" where
  "allocation_after ops c n =
     (case run Sorter_init ops of Inl e \<Rightarrow> Inl e | Inr s \<Rightarrow> Sorter_allocation s c n)"

text \<open>
  Modelled from the spec: a client's effective weight after a sequence of calls on a
  newly constructed sorter.
\<close>

definition effective_weight_after :: "operation list \<Rightarrow> string \<Rightarrow> error + real" where
  "effective_weight_after ops c =
     (case run Sorter_init ops of Inl e \<Rightarrow> Inl e | Inr s \<Rightarrow> Inr (effective_weight s c))"

text \<open>
  Modelled from the spec: the calls of its concrete scenario: ``pool total
  \<^verbatim>\<open>{cpu:10, mem:10}\<close>; client X allocated \<^verbatim>\<open>{cpu:8}\<close> \<dots>; client Y allocated
  \<^verbatim>\<open>{mem:2}\<close> \<dots>; with equal weight 1.0'', both clients active. The argument is what
  \<^verbatim>\<open>initialize\<close> receives.
\<close>

definition scenario_ops :: "string list option \<Rightarrow> operation list" where
  "scenario_ops names =
     [Initialize names, AddClient ''X'', AddClient ''Y'', Activate ''X'', Activate ''Y'',
      AddResources ''agent'' [((''cpus'', []), 10), ((''mem'', []), 10)],
      Allocated ''X'' ''agent'' [((''cpus'', []), 8)],
      Allocated ''Y'' ''agent'' [((''mem'', []), 2)]]"

text \<open>
  Modelled from the spec: the state the calls of the scenario lead to, given the names
  that \<^verbatim>\<open>initialize\<close> excluded.
\<close>

definition scenario_state :: "string list \<Rightarrow> Sorter" where
  "scenario_state excluded =
     \<lparr>initialized = True, fairnessExcludeResourceNames = excluded,
      clients =
        [(''X'', \<lparr>active = True, allocation = (\<lambda>n. [])(''agent'' := [((''cpus'', []), 8)]),
                  scalarQuantities = [((''cpus'', []), 8)], share = 0\<rparr>),
         (''Y'', \<lparr>active = True, allocation = (\<lambda>n. [])(''agent'' := [((''mem'', []), 2)]),
                  scalarQuantities = [((''mem'', []), 2)], share = 0\<rparr>)],
      weights = Map.empty,
      total = [((''cpus'', []), 10), ((''mem'', []), 10)]\<rparr>"

text \<open>
  Modelled from the spec: the amounts of a \<^verbatim>\<open>Resources\<close> value, a type missing from the
  sources, are positive: a resource that is not there has no entry.
\<close>

definition positive :: "Resources \<Rightarrow> bool" where
  "positive R = list_all (\<lambda>(k, v). 0 < v) R"

text \<open>
  Modelled from the spec: the well-formed values of \<^verbatim>\<open>Resources\<close>, a type missing from
  the sources: keys strictly ascending (``unique names, sorted by name ascending''),
  amounts positive.
\<close>

definition valid_resources :: "Resources \<Rightarrow> bool" where
  "valid_resources R = (sorted_wrt (<) (map fst R) \<and> positive R)"

text \<open>
  Modelled from the spec: a call is well-formed when the \<^verbatim>\<open>Resources\<close> it passes are.
\<close>

fun valid_operation :: "operation \<Rightarrow> bool" where
  "valid_operation (Allocated c n R) = valid_resources R"
| "valid_operation (Update c n old new) = (valid_resources old \<and> valid_resources new)"
| "valid_operation (Unallocated c n R) = valid_resources R"
| "valid_operation (AddResources n R) = valid_resources R"
| "valid_operation (RemoveResources n R) = valid_resources R"
| "valid_operation x = True"

text \<open>
  Modelled from the spec: the states a sorter reaches from construction by well-formed
  calls that do not end in a fatal report.
\<close>

inductive Sorter_reachable :: "Sorter \<Rightarrow> bool" where
  reachable_init: "Sorter_reachable Sorter_init"
| reachable_step:
    "Sorter_reachable s \<Longrightarrow> valid_operation x \<Longrightarrow> step s x = Inr s' \<Longrightarrow> Sorter_reachable s'"

text \<open>
  Modelled from the spec: the invariant of a client's state, missing from the sources:
  its records hold positive amounts only.
\<close>

definition wf_client :: "Client \<Rightarrow> bool" where
  "wf_client cl = (positive (scalarQuantities cl) \<and> (\<forall>n. positive (allocation cl n)))"

text \<open>
  Modelled from the spec: the invariant of a sorter's state, missing from the sources:
  client names are unique (a client is ``identified by an opaque string key''), and
  the pool total and every client's records hold positive amounts only.
\<close>

definition wf :: "Sorter \<Rightarrow> bool" where
  "wf s = (distinct (map fst (clients s)) \<and> positive (total s) \<and>
           (\<forall>(c, cl) \<in> set (clients s). wf_client cl))"

text \<open>
  Modelled from the spec: the part of the invariant that concerns the client names
  alone: they are unique.
\<close>

definition unique_clients :: "Sorter \<Rightarrow> bool" where
  "unique_clients s = distinct (map fst (clients s))"

text \<open>
  Modelled from the spec: ``a client present in the Sorter is either active or
  inactive''; a client is active when it is present and its flag is set.
\<close>

definition is_active :: "Sorter \<Rightarrow> string \<Rightarrow> bool" where
  "is_active s c = (case find_client s c of Some cl \<Rightarrow> active cl | None \<Rightarrow> False)"

text \<open>
  Modelled from the spec: the ``clients under that path'': the path's components are
  the leading components of the client's own path (the path itself included).
\<close>

definition under_path :: "string \<Rightarrow> string \<Rightarrow> bool" where
  "under_path path c =
     (take (length (split_path path)) (split_path c) = split_path path)"

text \<open>
  Modelled from the spec: no ``more specific ancestor path'' of the client than the
  given one ``has an explicit entry''.
\<close>

definition no_override_between :: "Sorter \<Rightarrow> string \<Rightarrow> string \<Rightarrow> bool" where
  "no_override_between s path c =
     (\<forall>j. length (split_path path) < j \<and> j \<le> length (split_path c) \<longrightarrow>
          weights s (take j (split_path c)) = None)"

section \<open>Properties of the scalar quantity map\<close>

lemma contains_loop_map_of:
  "contains_loop name qs = (case map_of qs name of None \<Rightarrow> False | Some s \<Rightarrow> value_of s > 0)"
  by (induction qs) auto

lemma at_loop_map_of:
  "at_loop name qs = (case map_of qs name of None \<Rightarrow> Inl (at_failure name) | Some s \<Rightarrow> Inr s)"
  by (induction qs) auto

lemma subscript_loop_shift:
  "subscript_loop name qs k =
     (case subscript_loop name qs 0 of Existing i \<Rightarrow> Existing (i + k) | InsertAt i \<Rightarrow> InsertAt (i + k))"
proof (induction qs arbitrary: k)
  case Nil
  show ?case by simp
next
  case (Cons q qs)
  show ?case
    using Cons.IH [of "Suc k"] Cons.IH [of "Suc 0"]
    by (simp split: position.splits)
qed

lemma subscript_loop_Suc:
  "subscript_loop name qs (Suc 0) =
     (case subscript_loop name qs 0 of Existing i \<Rightarrow> Existing (Suc i) | InsertAt i \<Rightarrow> InsertAt (Suc i))"
  using subscript_loop_shift [of name qs "Suc 0"] by (simp split: position.splits)

lemma loop_Existing:
  "subscript_loop name qs 0 = Existing i \<Longrightarrow>
     i < length qs \<and> fst (qs ! i) = name \<and> (\<forall>q \<in> set (take i qs). fst q < name)"
proof (induction qs arbitrary: i)
  case Nil
  then show ?case by simp
next
  case (Cons q qs)
  show ?case
  proof (cases "fst q = name")
    case True
    with Cons.prems show ?thesis by simp
  next
    case False
    with Cons.prems have ng: "\<not> fst q > name"
      by (auto split: if_splits)
    with False have lt: "fst q < name" by auto
    from Cons.prems False ng obtain j where j: "subscript_loop name qs 0 = Existing j" "i = Suc j"
      by (auto simp: subscript_loop_Suc split: position.splits)
    from Cons.IH [OF j(1)] j(2) lt show ?thesis by simp
  qed
qed

lemma loop_InsertAt:
  "subscript_loop name qs 0 = InsertAt i \<Longrightarrow>
     i \<le> length qs \<and> (\<forall>q \<in> set (take i qs). fst q < name) \<and>
     (i < length qs \<longrightarrow> name < fst (qs ! i))"
proof (induction qs arbitrary: i)
  case Nil
  then show ?case by simp
next
  case (Cons q qs)
  show ?case
  proof (cases "fst q = name")
    case True
    with Cons.prems show ?thesis by simp
  next
    case False
    show ?thesis
    proof (cases "fst q > name")
      case True
      with Cons.prems False show ?thesis by simp
    next
      case ng: False
      with False have lt: "fst q < name" by auto
      from Cons.prems False ng obtain j where j: "subscript_loop name qs 0 = InsertAt j" "i = Suc j"
        by (auto simp: subscript_loop_Suc split: position.splits)
      from Cons.IH [OF j(1)] j(2) lt show ?thesis by simp
    qed
  qed
qed


lemma loop_InsertAt_absent:
  assumes "sorted_wrt (<) (map fst qs)" and "subscript_loop name qs 0 = InsertAt i"
  shows "name \<notin> fst ` set qs"
proof
  assume "name \<in> fst ` set qs"
  then obtain q where q: "q \<in> set qs" "fst q = name" by auto
  from loop_InsertAt [OF assms(2)]
  have le: "i \<le> length qs" and before: "\<forall>q \<in> set (take i qs). fst q < name"
    and after: "i < length qs \<longrightarrow> name < fst (qs ! i)" by auto
  from q(1) have "q \<in> set (take i qs) \<or> q \<in> set (drop i qs)"
    by (metis Un_iff append_take_drop_id set_append)
  then show False
  proof
    assume "q \<in> set (take i qs)"
    with before q(2) show False by auto
  next
    assume d: "q \<in> set (drop i qs)"
    then have i: "i < length qs" by (cases "i < length qs") auto
    then have dr: "drop i qs = qs ! i # drop (Suc i) qs"
      by (simp add: Cons_nth_drop_Suc)
    from assms(1) have "sorted_wrt (<) (map fst (take i qs @ drop i qs))" by simp
    then have "sorted_wrt (<) (map fst (drop i qs))"
      unfolding map_append sorted_wrt_append by blast
    with dr have "\<forall>x \<in> set (drop (Suc i) qs). fst (qs ! i) < fst x" by simp
    with d dr have "fst (qs ! i) \<le> fst q" by auto
    with after i q(2) show False by auto
  qed
qed

lemma loop_absent_InsertAt:
  "name \<notin> fst ` set qs \<Longrightarrow> \<exists>i. subscript_loop name qs 0 = InsertAt i"
  by (induction qs) (auto simp: subscript_loop_Suc split: position.splits)

lemma loop_present_Existing:
  assumes "sorted_wrt (<) (map fst qs)" and "name \<in> fst ` set qs"
  shows "\<exists>i. subscript_loop name qs 0 = Existing i"
proof (cases "subscript_loop name qs 0")
  case (Existing i)
  then show ?thesis by blast
next
  case (InsertAt i)
  from loop_InsertAt_absent [OF assms(1) InsertAt] assms(2) show ?thesis by blast
qed

lemma map_of_before:
  "\<forall>q \<in> set ps. fst q \<noteq> name \<Longrightarrow> map_of (ps @ rs) name = map_of rs name"
  by (induction ps) auto

lemma loop_Existing_map_of:
  assumes "subscript_loop name qs 0 = Existing i"
  shows "map_of qs name = Some (snd (qs ! i))"
proof -
  from loop_Existing [OF assms]
  have i: "i < length qs" and nm: "fst (qs ! i) = name"
    and before: "\<forall>q \<in> set (take i qs). fst q < name" by auto
  from before have ne: "\<forall>q \<in> set (take i qs). fst q \<noteq> name" by auto
  have "qs = take i qs @ qs ! i # drop (Suc i) qs"
    using i by (simp add: id_take_nth_drop)
  then have "map_of qs name = map_of (take i qs @ qs ! i # drop (Suc i) qs) name" by simp
  also have "\<dots> = map_of (qs ! i # drop (Suc i) qs) name"
    by (rule map_of_before [OF ne])
  also have "\<dots> = Some (snd (qs ! i))"
    using nm by (cases "qs ! i") auto
  finally show ?thesis .
qed

lemma insert_sorted:
  assumes s: "sorted_wrt (<) (map fst qs)" and l: "subscript_loop name qs 0 = InsertAt i"
  shows "sorted_wrt (<) (map fst (take i qs @ (name, v) # drop i qs))"
proof -
  from loop_InsertAt [OF l]
  have le: "i \<le> length qs" and before: "\<forall>q \<in> set (take i qs). fst q < name"
    and after: "i < length qs \<longrightarrow> name < fst (qs ! i)" by auto
  from s have "sorted_wrt (<) (map fst (take i qs @ drop i qs))" by simp
  then have st: "sorted_wrt (<) (map fst (take i qs))"
    and sd: "sorted_wrt (<) (map fst (drop i qs))"
    and cross: "\<forall>x \<in> set (take i qs). \<forall>y \<in> set (drop i qs). fst x < fst y"
    unfolding map_append sorted_wrt_append by auto
  have gt: "\<forall>y \<in> set (drop i qs). name < fst y"
  proof (cases "i < length qs")
    case True
    then have dr: "drop i qs = qs ! i # drop (Suc i) qs"
      by (simp add: Cons_nth_drop_Suc)
    with sd have "\<forall>x \<in> set (drop (Suc i) qs). fst (qs ! i) < fst x" by simp
    with after True dr show ?thesis by auto
  next
    case False
    then show ?thesis by simp
  qed
  show ?thesis
    using st sd cross before gt by (auto simp: sorted_wrt_append)
qed

lemma map_fst_assign:
  "map fst (qs[i := (fst (qs ! i), v)]) = map fst qs"
proof (cases "i < length qs")
  case True
  then have "(map fst qs)[i := fst (qs ! i)] = map fst qs"
    by (metis length_map list_update_id nth_map)
  then show ?thesis by (simp add: map_update)
next
  case False
  then show ?thesis by (simp add: list_update_beyond)
qed

lemma sorted_by_name_subscript:
  assumes "sorted_by_name m"
  shows "sorted_by_name (fst (subscript m name))"
proof (cases "subscript_loop name (quantities m) 0")
  case (Existing i)
  with assms show ?thesis by (simp add: subscript_def)
next
  case (InsertAt i)
  with insert_sorted [OF assms [unfolded sorted_by_name_def] InsertAt, of "Scalar 0"]
  show ?thesis by (simp add: subscript_def sorted_by_name_def)
qed

lemma sorted_by_name_assign:
  "sorted_by_name m \<Longrightarrow> sorted_by_name (assign m i v)"
  by (simp add: sorted_by_name_def assign_def map_fst_assign)

lemma reachable_sorted: "reachable m \<Longrightarrow> sorted_by_name m"
proof (induction rule: reachable.induct)
  case reach_init
  show ?case by (simp add: sorted_by_name_def ScalarResourceQuantities_init_def)
next
  case (reach_index m name)
  then show ?case by (simp add: sorted_by_name_subscript)
next
  case (reach_write m name m' i v)
  from sorted_by_name_subscript [OF reach_write.IH, of name] reach_write.hyps(2)
  have "sorted_by_name m'" by simp
  then show ?case by (rule sorted_by_name_assign)
qed

lemma map_of_insert_other_gen:
  "n \<noteq> name \<Longrightarrow> map_of (ps @ (name, v) # rs) n = map_of (ps @ rs) n"
  by (induction ps) auto

lemma map_of_insert_other:
  "n \<noteq> name \<Longrightarrow> map_of (take i qs @ (name, v) # drop i qs) n = map_of qs n"
proof -
  assume n: "n \<noteq> name"
  have "map_of (take i qs @ (name, v) # drop i qs) n = map_of (take i qs @ drop i qs) n"
    by (rule map_of_insert_other_gen [OF n])
  then show ?thesis by (simp only: append_take_drop_id)
qed

lemma map_of_insert_same_gen:
  "\<forall>q \<in> set ps. fst q \<noteq> name \<Longrightarrow> map_of (ps @ (name, v) # rs) name = Some v"
  by (induction ps) auto

lemma map_of_insert_same:
  "\<forall>q \<in> set (take i qs). fst q \<noteq> name \<Longrightarrow>
     map_of (take i qs @ (name, v) # drop i qs) name = Some v"
  by (rule map_of_insert_same_gen)

lemma subscript_absent:
  assumes "name \<notin> fst ` set (quantities m)" and "subscript m name = (m', i)"
  shows "quantities m' = take i (quantities m) @ (name, Scalar 0) # drop i (quantities m)"
    and "i \<le> length (quantities m)"
    and "subscript_loop name (quantities m) 0 = InsertAt i"
proof -
  from loop_absent_InsertAt [OF assms(1)]
  obtain j where j: "subscript_loop name (quantities m) 0 = InsertAt j" by blast
  with assms(2) have "i = j" and "m' = m\<lparr>quantities :=
      take j (quantities m) @ (name, Scalar 0) # drop j (quantities m)\<rparr>"
    by (auto simp: subscript_def)
  with j loop_InsertAt [OF j]
  show "quantities m' = take i (quantities m) @ (name, Scalar 0) # drop i (quantities m)"
    and "i \<le> length (quantities m)"
    and "subscript_loop name (quantities m) 0 = InsertAt i"
    by auto
qed

lemma subscript_present:
  assumes "sorted_by_name m" and "name \<in> fst ` set (quantities m)"
    and "subscript m name = (m', i)"
  shows "m' = m" and "i < length (quantities m)" and "fst (quantities m ! i) = name"
    and "map_of (quantities m) name = Some (snd (quantities m ! i))"
proof -
  from loop_present_Existing [OF assms(1) [unfolded sorted_by_name_def] assms(2)]
  obtain j where j: "subscript_loop name (quantities m) 0 = Existing j" by blast
  with assms(3) have ij: "i = j" and mm: "m' = m"
    by (auto simp: subscript_def)
  from mm show "m' = m" .
  from loop_Existing [OF j] ij
  show "i < length (quantities m)" and "fst (quantities m ! i) = name" by auto
  from loop_Existing_map_of [OF j] ij
  show "map_of (quantities m) name = Some (snd (quantities m ! i))" by simp
qed

lemma filter_insert_dropped:
  "\<not> P x \<Longrightarrow> filter P (ps @ x # rs) = filter P (ps @ rs)"
  by simp

lemma nth_insert_at:
  "i \<le> length qs \<Longrightarrow> (take i qs @ x # drop i qs) ! i = x"
  by (simp add: nth_append)

text \<open>
  Claim C2: \<^verbatim>\<open>contains(name)\<close> is true exactly when the quantity stored for \<open>name\<close> (the
  value the vector associates with it) is strictly positive, and false when \<open>name\<close> does
  not occur in the vector.
\<close>

theorem contains_iff_positive:
  fixes m :: "'d::{zero,ord} ScalarResourceQuantities"
  shows "(contains m name \<longleftrightarrow>
            (\<exists>s. map_of (quantities m) name = Some s \<and> value_of s > 0)) \<and>
         (name \<notin> fst ` set (quantities m) \<longrightarrow> \<not> contains m name)"
proof -
  have eq: "contains m name =
      (case map_of (quantities m) name of None \<Rightarrow> False | Some s \<Rightarrow> value_of s > 0)"
    by (simp add: contains_def contains_loop_map_of)
  have "name \<notin> fst ` set (quantities m) \<Longrightarrow> map_of (quantities m) name = None"
    by (simp add: map_of_eq_None_iff)
  with eq show ?thesis by (auto split: option.splits)
qed

text \<open>
  Claim C4: for a name present in the map \<^verbatim>\<open>at(name)\<close> returns the stored scalar; for an
  absent name it reaches \<^verbatim>\<open>LOG(FATAL)\<close>; after a successful \<^verbatim>\<open>contains(name)\<close> check the
  fatal branch is not reached.
\<close>

theorem at_name_stored_or_fatal:
  fixes m :: "'d::{zero,ord} ScalarResourceQuantities"
  shows "(\<forall>s. map_of (quantities m) name = Some s \<longrightarrow> at_name m name = Inr s) \<and>
         (name \<in> fst ` set (quantities m) \<longrightarrow>
            (\<exists>s. (name, s) \<in> set (quantities m) \<and> at_name m name = Inr s)) \<and>
         (name \<notin> fst ` set (quantities m) \<longrightarrow> at_name m name = Inl (at_failure name)) \<and>
         (contains m name \<longrightarrow> (\<exists>s. at_name m name = Inr s))"
proof -
  have eq: "at_name m name =
      (case map_of (quantities m) name of None \<Rightarrow> Inl (at_failure name) | Some s \<Rightarrow> Inr s)"
    by (simp add: at_name_def at_loop_map_of)
  have none: "name \<notin> fst ` set (quantities m) \<Longrightarrow> map_of (quantities m) name = None"
    by (simp add: map_of_eq_None_iff)
  have some: "name \<in> fst ` set (quantities m) \<Longrightarrow>
      \<exists>s. map_of (quantities m) name = Some s \<and> (name, s) \<in> set (quantities m)"
    by (metis map_of_SomeD map_of_eq_None_iff not_None_eq)
  have c: "contains m name \<Longrightarrow> \<exists>s. map_of (quantities m) name = Some s"
    by (auto simp: contains_def contains_loop_map_of split: option.splits)
  show ?thesis
    using eq none some c by (auto split: option.splits)
qed

text \<open>
  Claim C9: evaluating \<^verbatim>\<open>m[name]\<close> for an absent name leaves an entry with a zero scalar
  in the vector (visible to \<^verbatim>\<open>begin()\<close>/\<^verbatim>\<open>end()\<close> iteration and to \<^verbatim>\<open>at\<close>), and
  \<^verbatim>\<open>contains(name)\<close> is still false. Here the order on the payload is a preorder, so
  that zero is not greater than zero.
\<close>

theorem subscript_fresh_not_contained:
  fixes m :: "'d::{zero,preorder} ScalarResourceQuantities"
  assumes "name \<notin> fst ` set (quantities m)" and "subscript m name = (m', i)"
  shows "\<not> contains m' name \<and> at_name m' name = Inr (Scalar 0) \<and>
         deref m' i = Scalar 0 \<and> (name, Scalar 0) \<in> set (quantities m') \<and>
         name \<in> fst ` set (quantities m')"
proof -
  note ab = subscript_absent [OF assms]
  from assms(1) have ne: "\<forall>q \<in> set (take i (quantities m)). fst q \<noteq> name"
    by (auto dest: in_set_takeD)
  have mo: "map_of (quantities m') name = Some (Scalar 0)"
    unfolding ab(1) by (rule map_of_insert_same [OF ne])
  have c: "\<not> contains m' name"
    by (simp add: contains_def contains_loop_map_of mo)
  have a: "at_name m' name = Inr (Scalar 0)"
    by (simp add: at_name_def at_loop_map_of mo)
  have d: "deref m' i = Scalar 0"
    using ab(2) by (simp add: deref_def ab(1) nth_insert_at)
  have s: "(name, Scalar 0) \<in> set (quantities m')"
    by (simp add: ab(1))
  then have "name \<in> fst ` set (quantities m')" by force
  with c a d s show ?thesis by blast
qed

text \<open>
  Claim C10: on a map sorted by name, as every map the class builds is, evaluating
  \<^verbatim>\<open>m[name]\<close> leaves the quantity of every other name as it was, keeps every entry (the
  entries of the other names stay in the same order), and the number of entries grows
  by one when \<open>name\<close> was absent and is unchanged when it was present.
\<close>

theorem subscript_frame:
  fixes m :: "'d::zero ScalarResourceQuantities"
  assumes "sorted_by_name m" and "subscript m name = (m', i)"
  shows "(\<forall>n. n \<noteq> name \<longrightarrow> map_of (quantities m') n = map_of (quantities m) n \<and>
                           at_name m' n = at_name m n) \<and>
         filter (\<lambda>q. fst q \<noteq> name) (quantities m') = filter (\<lambda>q. fst q \<noteq> name) (quantities m) \<and>
         set (quantities m) \<subseteq> set (quantities m') \<and>
         length (quantities m') =
           (if name \<in> fst ` set (quantities m) then length (quantities m)
            else Suc (length (quantities m)))"
proof (cases "name \<in> fst ` set (quantities m)")
  case True
  from subscript_present(1) [OF assms(1) True assms(2)] True
  show ?thesis by simp
next
  case False
  note ab = subscript_absent [OF False assms(2)]
  have mo: "\<forall>n. n \<noteq> name \<longrightarrow> map_of (quantities m') n = map_of (quantities m) n"
  proof (intro allI impI)
    fix n :: string
    assume "n \<noteq> name"
    then show "map_of (quantities m') n = map_of (quantities m) n"
      unfolding ab(1) by (rule map_of_insert_other)
  qed
  then have at: "\<forall>n. n \<noteq> name \<longrightarrow> at_name m' n = at_name m n"
    by (simp add: at_name_def at_loop_map_of)
  have "filter (\<lambda>q. fst q \<noteq> name) (take i (quantities m) @ (name, Scalar 0) # drop i (quantities m))
      = filter (\<lambda>q. fst q \<noteq> name) (take i (quantities m) @ drop i (quantities m))"
    by (rule filter_insert_dropped) simp
  then have fl: "filter (\<lambda>q. fst q \<noteq> name) (quantities m') = filter (\<lambda>q. fst q \<noteq> name) (quantities m)"
    by (simp add: ab(1))
  have "set (take i (quantities m) @ drop i (quantities m)) \<subseteq> set (quantities m')"
    unfolding ab(1) by (simp only: set_append set_simps) blast
  then have sub: "set (quantities m) \<subseteq> set (quantities m')" by simp
  have len: "length (quantities m') = Suc (length (quantities m))"
    using ab(2) by (simp add: ab(1))
  from mo at fl sub len False show ?thesis by simp
qed

lemma map_of_update_slot:
  "distinct (map fst qs) \<Longrightarrow> i < length qs \<Longrightarrow>
     map_of (qs[i := (fst (qs ! i), v)]) = (map_of qs)(fst (qs ! i) \<mapsto> v)"
proof (induction qs arbitrary: i)
  case Nil
  then show ?case by simp
next
  case (Cons q qs)
  show ?case
  proof (cases i)
    case 0
    then show ?thesis by (cases q) (simp add: fun_eq_iff)
  next
    case (Suc j)
    with Cons.prems have j: "j < length qs" and d: "distinct (map fst qs)"
      and nq: "fst q \<notin> fst ` set qs" by auto
    from j nq have "fst (qs ! j) \<noteq> fst q"
      by (metis image_eqI nth_mem)
    with Cons.IH [OF d j] Suc show ?thesis
      by (cases q) (auto simp: fun_eq_iff)
  qed
qed

lemma sorted_by_name_distinct:
  "sorted_by_name m \<Longrightarrow> distinct (map fst (quantities m))"
  by (simp add: sorted_by_name_def strict_sorted_iff)

lemma subscript_slot:
  assumes "sorted_by_name m" and "subscript m name = (m', i)"
  shows "i < length (quantities m')" and "fst (quantities m' ! i) = name"
proof -
  have "i < length (quantities m') \<and> fst (quantities m' ! i) = name"
  proof (cases "name \<in> fst ` set (quantities m)")
    case True
    from subscript_present [OF assms(1) True assms(2)] show ?thesis by simp
  next
    case False
    note ab = subscript_absent [OF False assms(2)]
    from ab(2) show ?thesis by (simp add: ab(1) nth_insert_at)
  qed
  then show "i < length (quantities m')" and "fst (quantities m' ! i) = name" by auto
qed

lemma at_name_assign:
  assumes "sorted_by_name m" and "i < length (quantities m)"
  shows "at_name (assign m i v) n =
           (if n = fst (quantities m ! i) then Inr v else at_name m n)"
proof -
  from sorted_by_name_distinct [OF assms(1)]
  have d: "distinct (map fst (quantities m))" .
  show ?thesis
    by (simp add: at_name_def at_loop_map_of assign_def map_of_update_slot [OF d assms(2)])
qed

text \<open>
  Claim C3: every map built from the constructor by \<^verbatim>\<open>operator[]\<close> calls and writes
  through the returned references has strictly ascending, hence unique, names, and
  \<^verbatim>\<open>operator[]\<close> keeps it so: for a present name the map is unchanged and the returned
  slot is the existing one; for an absent name a zero scalar is inserted at the returned
  position and the result is still sorted. The slot is mutable: a write through it
  changes what \<^verbatim>\<open>at(name)\<close> returns and nothing else.
\<close>

theorem subscript_keeps_sorted:
  fixes m :: "'d::zero ScalarResourceQuantities"
  assumes "reachable m" and "subscript m name = (m', i)"
  shows "sorted_by_name m \<and> distinct (map fst (quantities m)) \<and>
         sorted_by_name m' \<and> distinct (map fst (quantities m')) \<and>
         i < length (quantities m') \<and> fst (quantities m' ! i) = name \<and>
         (name \<in> fst ` set (quantities m) \<longrightarrow>
            m' = m \<and> map_of (quantities m) name = Some (deref m' i)) \<and>
         (name \<notin> fst ` set (quantities m) \<longrightarrow>
            quantities m' = take i (quantities m) @ (name, Scalar 0) # drop i (quantities m) \<and>
            deref m' i = Scalar 0) \<and>
         (\<forall>v. sorted_by_name (assign m' i v) \<and> at_name (assign m' i v) name = Inr v \<and>
              (\<forall>n. n \<noteq> name \<longrightarrow> at_name (assign m' i v) n = at_name m' n))"
proof -
  from reachable_sorted [OF assms(1)] have s: "sorted_by_name m" .
  from sorted_by_name_subscript [OF s, of name] assms(2)
  have s': "sorted_by_name m'" by simp
  note slot = subscript_slot [OF s assms(2)]
  have present: "name \<in> fst ` set (quantities m) \<longrightarrow>
      m' = m \<and> map_of (quantities m) name = Some (deref m' i)"
  proof
    assume p: "name \<in> fst ` set (quantities m)"
    from subscript_present [OF s p assms(2)]
    show "m' = m \<and> map_of (quantities m) name = Some (deref m' i)"
      by (simp add: deref_def)
  qed
  have absent: "name \<notin> fst ` set (quantities m) \<longrightarrow>
      quantities m' = take i (quantities m) @ (name, Scalar 0) # drop i (quantities m) \<and>
      deref m' i = Scalar 0"
  proof
    assume a: "name \<notin> fst ` set (quantities m)"
    note ab = subscript_absent [OF a assms(2)]
    from ab(2) have "deref m' i = Scalar 0"
      by (simp add: deref_def ab(1) nth_insert_at)
    with ab(1)
    show "quantities m' = take i (quantities m) @ (name, Scalar 0) # drop i (quantities m) \<and>
      deref m' i = Scalar 0" by simp
  qed
  have w: "\<forall>v. sorted_by_name (assign m' i v) \<and> at_name (assign m' i v) name = Inr v \<and>
      (\<forall>n. n \<noteq> name \<longrightarrow> at_name (assign m' i v) n = at_name m' n)"
    using slot by (simp add: sorted_by_name_assign [OF s'] at_name_assign [OF s' slot(1)])
  from s s' slot present absent w sorted_by_name_distinct [OF s] sorted_by_name_distinct [OF s']
  show ?thesis by blast
qed

lemma example_map_subscript_gpus: "subscript example_map ''gpus'' = (example_map_gpus, 1)"
  by (simp add: subscript_def example_map_def example_map_gpus_def)

lemma example_map_subscript_mem: "subscript example_map ''mem'' = (example_map, 1)"
  by (simp add: subscript_def example_map_def)

lemma example_map_reachable: "reachable example_map"
proof -
  let ?a = "\<lparr>quantities = [(''cpus'', Scalar 0)]\<rparr> :: real ScalarResourceQuantities"
  let ?b = "\<lparr>quantities = [(''cpus'', Scalar 2)]\<rparr> :: real ScalarResourceQuantities"
  have 1: "subscript ScalarResourceQuantities_init ''cpus'' = (?a, 0)"
    by (simp add: subscript_def ScalarResourceQuantities_init_def)
  have 2: "assign ?a 0 (Scalar 2) = ?b"
    by (simp add: assign_def)
  from reach_write [OF reach_init 1, of "Scalar 2"] 2 have b: "reachable ?b" by simp
  have 3: "fst (subscript ?b ''mem'') = example_map"
    by (simp add: subscript_def example_map_def)
  from reach_index [OF b, of "''mem''"] 3 show ?thesis by simp
qed

text \<open>The containment test on a concrete map: an absent name, a positive and a zero entry.\<close>

theorem contains_iff_positive_witness:
  "''gpus'' \<notin> fst ` set (quantities example_map) \<and> \<not> contains example_map ''gpus'' \<and>
   contains example_map ''cpus'' \<and> \<not> contains example_map ''mem''"
  using contains_iff_positive [of example_map "''gpus''"]
    contains_iff_positive [of example_map "''cpus''"]
    contains_iff_positive [of example_map "''mem''"]
  by (simp add: example_map_def)

text \<open>The lookup on a concrete map, for a present and for an absent name.\<close>

theorem at_name_stored_or_fatal_witness:
  "contains example_map ''cpus'' \<and> at_name example_map ''cpus'' = Inr (Scalar 2) \<and>
   ''mem'' \<in> fst ` set (quantities example_map) \<and> at_name example_map ''mem'' = Inr (Scalar 0) \<and>
   ''gpus'' \<notin> fst ` set (quantities example_map) \<and>
   at_name example_map ''gpus'' =
     Inl (Fatal (''Failed to find '' @ [CHR 0x27] @ ''gpus'' @ [CHR 0x27]))"
proof -
  have c: "contains example_map ''cpus''"
    by (simp add: contains_def example_map_def)
  show ?thesis
    using c at_name_stored_or_fatal [of example_map "''cpus''"]
      at_name_stored_or_fatal [of example_map "''mem''"]
      at_name_stored_or_fatal [of example_map "''gpus''"]
    by (simp add: example_map_def at_failure_def)
qed


text \<open>Indexing a concrete map at an absent name, then testing containment.\<close>

theorem subscript_fresh_not_contained_witness:
  "''gpus'' \<notin> fst ` set (quantities example_map) \<and>
   subscript example_map ''gpus'' = (example_map_gpus, 1) \<and>
   \<not> contains example_map_gpus ''gpus'' \<and>
   at_name example_map_gpus ''gpus'' = Inr (Scalar 0) \<and>
   (''gpus'', Scalar 0) \<in> set (quantities example_map_gpus)"
proof -
  have a: "''gpus'' \<notin> fst ` set (quantities example_map)"
    by (simp add: example_map_def)
  from subscript_fresh_not_contained [OF a example_map_subscript_gpus] a
    example_map_subscript_gpus
  show ?thesis by simp
qed

text \<open>The frame of indexing on a concrete sorted map, for an absent and a present name.\<close>

theorem subscript_frame_witness:
  "sorted_by_name example_map \<and>
   subscript example_map ''gpus'' = (example_map_gpus, 1) \<and>
   at_name example_map_gpus ''cpus'' = at_name example_map ''cpus'' \<and>
   length (quantities example_map_gpus) = Suc (length (quantities example_map)) \<and>
   subscript example_map ''mem'' = (example_map, 1)"
proof -
  have s: "sorted_by_name example_map"
    by (simp add: sorted_by_name_def example_map_def)
  have a: "''gpus'' \<notin> fst ` set (quantities example_map)"
    by (simp add: example_map_def)
  from subscript_frame [OF s example_map_subscript_gpus] a
  have "at_name example_map_gpus ''cpus'' = at_name example_map ''cpus'' \<and>
     length (quantities example_map_gpus) = Suc (length (quantities example_map))"
    by simp
  with s example_map_subscript_gpus example_map_subscript_mem show ?thesis by simp
qed

text \<open>The invariant on a concrete reachable map, indexed at an absent and at a present name.\<close>

theorem subscript_keeps_sorted_witness:
  "reachable example_map \<and>
   subscript example_map ''gpus'' = (example_map_gpus, 1) \<and>
   ''gpus'' \<notin> fst ` set (quantities example_map) \<and>
   sorted_by_name example_map_gpus \<and> deref example_map_gpus 1 = Scalar 0 \<and>
   at_name (assign example_map_gpus 1 (Scalar 3)) ''gpus'' = Inr (Scalar 3) \<and>
   subscript example_map ''mem'' = (example_map, 1) \<and>
   ''mem'' \<in> fst ` set (quantities example_map) \<and>
   map_of (quantities example_map) ''mem'' = Some (deref example_map 1)"
proof -
  have a: "''gpus'' \<notin> fst ` set (quantities example_map)"
    and p: "''mem'' \<in> fst ` set (quantities example_map)"
    by (simp_all add: example_map_def)
  from subscript_keeps_sorted [OF example_map_reachable example_map_subscript_gpus] a
  have 1: "sorted_by_name example_map_gpus \<and> deref example_map_gpus 1 = Scalar 0 \<and>
     at_name (assign example_map_gpus 1 (Scalar 3)) ''gpus'' = Inr (Scalar 3)"
    by blast
  from subscript_keeps_sorted [OF example_map_reachable example_map_subscript_mem] p
  have 2: "map_of (quantities example_map) ''mem'' = Some (deref example_map 1)"
    by blast
  from 1 2 a p example_map_reachable example_map_subscript_gpus example_map_subscript_mem
  show ?thesis by blast
qed

section \<open>Properties of the Sorter model\<close>

lemma res_sub_self: "res_sub R R = []"
  by (induction R) auto

lemma res_sub_add: "positive A \<Longrightarrow> res_sub (res_add A R) R = A"
  by (induction A R rule: res_add.induct) (auto simp: positive_def res_sub_self)

lemma res_contains_self: "res_contains R R"
  by (induction R) auto

lemma res_contains_add: "positive A \<Longrightarrow> res_contains (res_add A R) R"
  by (induction A R rule: res_add.induct) (auto simp: positive_def res_contains_self)

lemma positive_res_add: "positive A \<Longrightarrow> positive R \<Longrightarrow> positive (res_add A R)"
  by (induction A R rule: res_add.induct) (auto simp: positive_def)

lemma positive_res_sub: "positive A \<Longrightarrow> positive (res_sub A R)"
  by (induction A R rule: res_sub.induct) (auto simp: positive_def)

lemma positive_stripped_fold:
  "positive S \<Longrightarrow> positive R \<Longrightarrow>
     positive (fold (\<lambda>((name, meta), v) S. res_add S [((name, []), v)]) R S)"
proof (induction R arbitrary: S)
  case Nil
  then show ?case by simp
next
  case (Cons x R)
  obtain name meta v where x: "x = ((name, meta), v)" by (cases x) auto
  from Cons.prems(2) x have v: "0 < v" and R: "positive R" by (auto simp: positive_def)
  from v have "positive [((name, []), v)]" by (simp add: positive_def)
  with Cons.prems(1) have "positive (res_add S [((name, []), v)])"
    by (rule positive_res_add)
  from Cons.IH [OF this R] x show ?case by simp
qed

lemma positive_stripped: "positive R \<Longrightarrow> positive (stripped R)"
  unfolding stripped_def by (rule positive_stripped_fold) (simp_all add: positive_def)

lemma find_client_update_client:
  "find_client (update_client c f s) d =
     (if d = c then map_option f (find_client s d) else find_client s d)"
proof -
  have "map_of (map (\<lambda>(d, cl). if d = c then (d, f cl) else (d, cl)) xs) d =
     (if d = c then map_option f (map_of xs d) else map_of xs d)" for xs
    by (induction xs) auto
  then show ?thesis by (simp add: find_client_def update_client_def)
qed

lemma map_fst_update_client:
  "map fst (clients (update_client c f s)) = map fst (clients s)"
  by (auto simp: update_client_def)

lemma update_client_id:
  assumes "\<forall>(d, cl) \<in> set (clients s). d = c \<longrightarrow> f cl = cl"
  shows "update_client c f s = s"
proof -
  from assms have "map (\<lambda>(d, cl). if d = c then (d, f cl) else (d, cl)) (clients s) = clients s"
    by (induction "clients s") (auto intro!: map_idI)
  then show ?thesis by (simp add: update_client_def)
qed

lemma update_client_compose:
  "update_client c g (update_client c f s) = update_client c (g \<circ> f) s"
proof -
  have "(\<lambda>(d, cl). if d = c then (d, g cl) else (d, cl)) \<circ>
        (\<lambda>(d, cl). if d = c then (d, f cl) else (d, cl)) =
        (\<lambda>(d, cl). if d = c then (d, (g \<circ> f) cl) else (d, cl))"
    by (auto simp: fun_eq_iff)
  then show ?thesis by (simp add: update_client_def)
qed

lemma initialized_update_client [simp]:
  "initialized (update_client c f s) = initialized s"
  by (simp add: update_client_def)

lemma find_client_in_clients: "find_client s c = Some cl \<Longrightarrow> (c, cl) \<in> set (clients s)"
  by (simp add: find_client_def map_of_SomeD)

lemma wf_clientD: "wf s \<Longrightarrow> (c, cl) \<in> set (clients s) \<Longrightarrow> wf_client cl"
  by (auto simp: wf_def)

lemma round_trip_client:
  assumes "wf_client cl"
  shows "((\<lambda>cl. cl\<lparr>allocation := (allocation cl)(n := res_sub (allocation cl n) R),
                    scalarQuantities := res_sub (scalarQuantities cl) (stripped R)\<rparr>) \<circ>
          (\<lambda>cl. cl\<lparr>allocation := (allocation cl)(n := res_add (allocation cl n) R),
                    scalarQuantities := res_add (scalarQuantities cl) (stripped R)\<rparr>)) cl = cl"
proof -
  from assms have a: "positive (allocation cl n)" and q: "positive (scalarQuantities cl)"
    by (auto simp: wf_client_def)
  show ?thesis
    by (simp add: res_sub_add [OF a] res_sub_add [OF q])
qed

text \<open>
  Claim C6, as amended: in a well-formed state, for a client \<open>c\<close> of the sorter, any node
  \<open>n\<close> and any resources \<open>R\<close>, \<^verbatim>\<open>allocated(c, n, R)\<close> succeeds, the \<^verbatim>\<open>unallocated(c, n, R)\<close>
  that follows succeeds, and afterwards \<^verbatim>\<open>allocation(c, n)\<close> and
  \<^verbatim>\<open>allocationScalarQuantities(c)\<close> are exactly what they were before the two calls
  (so \<^verbatim>\<open>allocation(c, n)\<close> is empty when it was empty before); the whole state is
  restored.
\<close>

theorem allocated_unallocated_round_trip:
  assumes "wf s" and "Sorter_contains s c = Inr True"
  shows "\<exists>s1 s2. Sorter_allocated s c n R = Inr s1 \<and> Sorter_unallocated s1 c n R = Inr s2 \<and>
           Sorter_allocation s2 c n = Sorter_allocation s c n \<and>
           Sorter_allocationScalarQuantities s2 c = Sorter_allocationScalarQuantities s c \<and>
           s2 = s"
proof -
  let ?f = "\<lambda>cl. cl\<lparr>allocation := (allocation cl)(n := res_add (allocation cl n) R),
                     scalarQuantities := res_add (scalarQuantities cl) (stripped R)\<rparr>"
  let ?g = "\<lambda>cl. cl\<lparr>allocation := (allocation cl)(n := res_sub (allocation cl n) R),
                     scalarQuantities := res_sub (scalarQuantities cl) (stripped R)\<rparr>"
  let ?s1 = "update_client c ?f s"
  from assms(2) have init: "initialized s"
    by (auto simp: Sorter_contains_def split: if_splits)
  with assms(2) obtain cl where cl: "find_client s c = Some cl"
    by (auto simp: Sorter_contains_def)
  from wf_clientD [OF assms(1) find_client_in_clients [OF cl]]
  have "positive (allocation cl n)" by (simp add: wf_client_def)
  then have sub: "res_contains (allocation (?f cl) n) R"
    by (simp add: res_contains_add)
  have 1: "Sorter_allocated s c n R = Inr ?s1"
    using init cl by (simp add: Sorter_allocated_def)
  have cl1: "find_client ?s1 c = Some (?f cl)"
    using cl by (simp add: find_client_update_client)
  have "\<forall>(d, cl') \<in> set (clients s). d = c \<longrightarrow> (?g \<circ> ?f) cl' = cl'"
    using round_trip_client wf_clientD [OF assms(1)] by blast
  then have restored: "update_client c (?g \<circ> ?f) s = s"
    by (rule update_client_id)
  have 2: "Sorter_unallocated ?s1 c n R = Inr (update_client c ?g ?s1)"
    using init cl1 sub by (simp add: Sorter_unallocated_def del: fun_upd_apply)
  also have "update_client c ?g ?s1 = s"
    by (simp only: update_client_compose restored)
  finally have 2: "Sorter_unallocated ?s1 c n R = Inr s" .
  from 1 2 show ?thesis by blast
qed

lemma wf_update_client:
  assumes "wf s" and "\<And>cl. wf_client cl \<Longrightarrow> wf_client (f cl)"
  shows "wf (update_client c f s)"
proof -
  have d: "distinct (map fst (clients (update_client c f s)))"
    using assms(1) by (simp add: map_fst_update_client wf_def)
  have t: "positive (total (update_client c f s))"
    using assms(1) by (simp add: update_client_def wf_def)
  have "\<forall>(d, cl) \<in> set (clients (update_client c f s)). wf_client cl"
    using assms by (auto simp: update_client_def wf_def split: if_splits)
  with d t show ?thesis by (simp add: wf_def)
qed

lemma wf_client_share [simp]: "wf_client (cl\<lparr>share := x\<rparr>) = wf_client cl"
  by (simp add: wf_client_def)

lemma wf_client_active [simp]: "wf_client (cl\<lparr>active := x\<rparr>) = wf_client cl"
  by (simp add: wf_client_def)

lemma wf_client_new: "wf_client new_client"
  by (simp add: wf_client_def new_client_def positive_def)

lemma wf_client_allocated:
  "positive R \<Longrightarrow> wf_client cl \<Longrightarrow>
     wf_client (cl\<lparr>allocation := (allocation cl)(n := res_add (allocation cl n) R),
                   scalarQuantities := res_add (scalarQuantities cl) (stripped R)\<rparr>)"
  by (simp add: wf_client_def positive_res_add positive_stripped)

lemma wf_client_unallocated:
  "wf_client cl \<Longrightarrow>
     wf_client (cl\<lparr>allocation := (allocation cl)(n := res_sub (allocation cl n) R),
                   scalarQuantities := res_sub (scalarQuantities cl) (stripped R)\<rparr>)"
  by (simp add: wf_client_def positive_res_sub)

lemma wf_client_update:
  "positive new \<Longrightarrow> wf_client cl \<Longrightarrow>
     wf_client (cl\<lparr>allocation := (allocation cl)(n := res_add (res_sub (allocation cl n) old) new),
                   scalarQuantities :=
                     res_add (res_sub (scalarQuantities cl) (stripped old)) (stripped new)\<rparr>)"
  by (simp add: wf_client_def positive_res_add positive_res_sub positive_stripped)

lemma wf_recompute_shares: "wf s \<Longrightarrow> wf (recompute_shares s)"
proof -
  assume w: "wf s"
  have m: "map fst (clients (recompute_shares s)) = map fst (clients s)"
    by (auto simp: recompute_shares_def)
  have "\<forall>(d, cl) \<in> set (clients (recompute_shares s)). wf_client cl"
    using w by (auto simp: recompute_shares_def wf_def)
  moreover have "total (recompute_shares s) = total s"
    by (simp add: recompute_shares_def)
  ultimately show ?thesis using w m by (simp add: wf_def)
qed

lemma wf_Sorter_init: "wf Sorter_init"
  by (simp add: wf_def Sorter_init_def positive_def)

lemma wf_Sorter_add: "wf s \<Longrightarrow> Sorter_add s c = Inr s' \<Longrightarrow> wf s'"
  by (auto simp: Sorter_add_def wf_def find_client_def map_of_eq_None_iff wf_client_new
           split: if_splits)

lemma wf_Sorter_remove: "wf s \<Longrightarrow> Sorter_remove s c = Inr s' \<Longrightarrow> wf s'"
  by (auto simp: Sorter_remove_def wf_def distinct_map_filter split: if_splits)

lemma wf_step:
  assumes "wf s" and "valid_operation x" and "step s x = Inr s'"
  shows "wf s'"
proof (cases x)
  case (Initialize names)
  with assms show ?thesis
    by (auto simp: Sorter_initialize_def wf_def split: if_splits)
next
  case (AddClient c)
  with assms show ?thesis by (auto intro: wf_Sorter_add)
next
  case (RemoveClient c)
  with assms show ?thesis by (auto intro: wf_Sorter_remove)
next
  case (Activate c)
  with assms show ?thesis
    by (auto simp: Sorter_activate_def split: if_splits intro!: wf_update_client)
next
  case (Deactivate c)
  with assms show ?thesis
    by (auto simp: Sorter_deactivate_def split: if_splits intro!: wf_update_client)
next
  case (UpdateWeight path w)
  with assms show ?thesis
    by (auto simp: Sorter_updateWeight_def wf_def split: if_splits)
next
  case (Allocated c n R)
  with assms have "positive R" by (simp add: valid_resources_def)
  with Allocated assms(1,3) show ?thesis
    by (auto simp: Sorter_allocated_def split: if_splits option.splits
             intro!: wf_update_client wf_client_allocated)
next
  case (Update c n old new)
  with assms have "positive new" by (simp add: valid_resources_def)
  with Update assms(1,3) show ?thesis
    by (auto simp: Sorter_update_def split: if_splits option.splits
             intro!: wf_update_client wf_client_update)
next
  case (Unallocated c n R)
  with assms(1,3) show ?thesis
    by (auto simp: Sorter_unallocated_def split: if_splits option.splits
             intro!: wf_update_client wf_client_unallocated)
next
  case (AddResources n R)
  with assms have "positive R" by (simp add: valid_resources_def)
  with AddResources assms(1,3) show ?thesis
    by (auto simp: Sorter_add_resources_def wf_def positive_res_add positive_stripped
             split: if_splits)
next
  case (RemoveResources n R)
  with assms(1,3) show ?thesis
    by (auto simp: Sorter_remove_resources_def wf_def positive_res_sub split: if_splits)
next
  case Sort
  with assms(1,3) show ?thesis
    by (auto simp: Sorter_sort_def Let_def wf_recompute_shares split: if_splits)
qed

lemma Sorter_reachable_wf: "Sorter_reachable s \<Longrightarrow> wf s"
  by (induction rule: Sorter_reachable.induct) (auto intro: wf_Sorter_init wf_step)

lemma find_client_append_new:
  "find_client (s\<lparr>clients := clients s @ [(d, cl0)]\<rparr>) c =
     (case find_client s c of Some cl \<Rightarrow> Some cl
      | None \<Rightarrow> if c = d then Some cl0 else None)"
  by (simp add: find_client_def map_add_def split: option.splits)

lemma find_client_filter:
  "find_client (s\<lparr>clients := filter (\<lambda>(d', cl). d' \<noteq> d) (clients s)\<rparr>) c =
     (if c = d then None else find_client s c)"
proof -
  have "map_of (filter (\<lambda>(d', cl). d' \<noteq> d) xs) c = (if c = d then None else map_of xs c)"
    for xs :: "(string \<times> Client) list"
    by (induction xs) auto
  then show ?thesis by (simp add: find_client_def)
qed

lemma find_client_recompute_shares:
  "find_client (recompute_shares s) c =
     map_option (\<lambda>cl. if active cl then cl\<lparr>share := weighted_share s c\<rparr> else cl)
       (find_client s c)"
proof -
  have "map_of (map (\<lambda>(c, cl). (c, if active cl then cl\<lparr>share := f c\<rparr> else cl)) xs) c =
      map_option (\<lambda>cl. if active cl then cl\<lparr>share := f c\<rparr> else cl) (map_of xs c)"
    for xs :: "(string \<times> Client) list" and f
    by (induction xs) auto
  then show ?thesis by (simp add: find_client_def recompute_shares_def)
qed

lemma is_active_recompute_shares [simp]:
  "is_active (recompute_shares s) c = is_active s c"
  by (simp add: is_active_def find_client_recompute_shares split: option.splits)

lemma active_clients_recompute_shares [simp]:
  "active_clients (recompute_shares s) = active_clients s"
proof -
  have "map fst (filter (\<lambda>(c, cl). active cl)
           (map (\<lambda>(c, cl). (c, if active cl then cl\<lparr>share := f c\<rparr> else cl)) xs)) =
        map fst (filter (\<lambda>(c, cl). active cl) xs)"
    for xs :: "(string \<times> Client) list" and f
    by (induction xs) (auto split: if_splits)
  then show ?thesis by (simp add: active_clients_def recompute_shares_def)
qed

lemma set_active_clients:
  assumes "unique_clients s"
  shows "set (active_clients s) = {c. is_active s c}"
proof -
  from assms have d: "distinct (map fst (clients s))" by (simp add: unique_clients_def)
  have "c \<in> set (active_clients s) \<longleftrightarrow> is_active s c" for c
  proof
    assume "c \<in> set (active_clients s)"
    then obtain cl where "(c, cl) \<in> set (clients s)" "active cl"
      by (auto simp: active_clients_def)
    with d show "is_active s c"
      by (simp add: is_active_def find_client_def)
  next
    assume "is_active s c"
    then obtain cl where "find_client s c = Some cl" "active cl"
      by (auto simp: is_active_def split: option.splits)
    then show "c \<in> set (active_clients s)"
      by (force simp: active_clients_def dest: find_client_in_clients)
  qed
  then show ?thesis by blast
qed

lemma distinct_active_clients:
  "unique_clients s \<Longrightarrow> distinct (active_clients s)"
  by (simp add: unique_clients_def active_clients_def distinct_map_filter)

lemma unique_clients_update_client [simp]:
  "unique_clients (update_client c f s) = unique_clients s"
  by (simp add: unique_clients_def map_fst_update_client)

lemma unique_clients_recompute_shares [simp]:
  "unique_clients (recompute_shares s) = unique_clients s"
proof -
  have "map fst (clients (recompute_shares s)) = map fst (clients s)"
    by (auto simp: recompute_shares_def)
  then show ?thesis by (simp add: unique_clients_def)
qed

lemma initialized_recompute_shares [simp]:
  "initialized (recompute_shares s) = initialized s"
  by (simp add: recompute_shares_def)

lemma step_initialized: "step s x = Inr s' \<Longrightarrow> initialized s'"
  by (cases x)
     (auto simp: Sorter_initialize_def Sorter_add_def Sorter_remove_def Sorter_activate_def
                 Sorter_deactivate_def Sorter_updateWeight_def Sorter_allocated_def
                 Sorter_update_def Sorter_unallocated_def Sorter_add_resources_def
                 Sorter_remove_resources_def Sorter_sort_def Let_def
           split: if_splits option.splits)

lemma step_unique_clients: "unique_clients s \<Longrightarrow> step s x = Inr s' \<Longrightarrow> unique_clients s'"
proof (cases x)
  case (AddClient c)
  assume "unique_clients s" "step s x = Inr s'"
  with AddClient show ?thesis
    by (auto simp: Sorter_add_def unique_clients_def find_client_def map_of_eq_None_iff
             split: if_splits)
next
  case (RemoveClient c)
  assume "unique_clients s" "step s x = Inr s'"
  with RemoveClient show ?thesis
    by (auto simp: Sorter_remove_def unique_clients_def distinct_map_filter split: if_splits)
qed (auto simp: Sorter_initialize_def Sorter_activate_def
                 Sorter_deactivate_def Sorter_updateWeight_def Sorter_allocated_def
                 Sorter_update_def Sorter_unallocated_def Sorter_add_resources_def
                 Sorter_remove_resources_def Sorter_sort_def Let_def unique_clients_def
                 map_fst_update_client
                 unique_clients_recompute_shares [unfolded unique_clients_def]
           split: if_splits option.splits)

lemma map_of_clients_update_client:
  "map_of (clients (update_client c f s)) d =
     (if d = c then map_option f (map_of (clients s) d) else map_of (clients s) d)"
  using find_client_update_client [of c f s d] by (simp add: find_client_def)

lemma map_of_clients_recompute_shares:
  "map_of (clients (recompute_shares s)) c =
     map_option (\<lambda>cl. if active cl then cl\<lparr>share := weighted_share s c\<rparr> else cl)
       (map_of (clients s) c)"
  using find_client_recompute_shares [of s c] by (simp add: find_client_def)

lemma map_of_filter_other:
  "map_of (filter (\<lambda>(d', cl). d' \<noteq> d) xs) c = (if c = d then None else map_of xs c)"
  by (induction xs) auto

lemmas operation_defs =
  Sorter_initialize_def Sorter_add_def Sorter_remove_def Sorter_activate_def
  Sorter_deactivate_def Sorter_updateWeight_def Sorter_allocated_def
  Sorter_update_def Sorter_unallocated_def Sorter_add_resources_def
  Sorter_remove_resources_def Sorter_sort_def

lemma step_inactive:
  assumes "\<not> is_active s c" and "step s x = Inr s'" and "x \<noteq> Activate c"
  shows "\<not> is_active s' c"
  using assms
  by (cases x)
     (auto simp: operation_defs Let_def is_active_def find_client_def new_client_def
                 map_of_clients_update_client map_of_clients_recompute_shares
                 map_of_filter_other map_add_def
           split: if_splits option.splits)

lemma step_present:
  assumes "find_client s c \<noteq> None" and "step s x = Inr s'" and "x \<noteq> RemoveClient c"
  shows "find_client s' c \<noteq> None"
  using assms
  by (cases x)
     (auto simp: operation_defs Let_def find_client_def
                 map_of_clients_update_client map_of_clients_recompute_shares
                 map_of_filter_other map_add_def
           split: if_splits option.splits)

lemma run_inactive:
  "\<not> is_active s c \<Longrightarrow> run s ops = Inr s' \<Longrightarrow> Activate c \<notin> set ops \<Longrightarrow> \<not> is_active s' c"
proof (induction ops arbitrary: s)
  case Nil
  then show ?case by simp
next
  case (Cons x ops)
  from Cons.prems(2) obtain s1 where s1: "step s x = Inr s1" "run s1 ops = Inr s'"
    by (auto split: sum.splits)
  from Cons.prems(3) have "x \<noteq> Activate c" "Activate c \<notin> set ops" by auto
  with step_inactive [OF Cons.prems(1) s1(1)] Cons.IH [OF _ s1(2)] show ?case by blast
qed

lemma run_present:
  "find_client s c \<noteq> None \<Longrightarrow> run s ops = Inr s' \<Longrightarrow> RemoveClient c \<notin> set ops \<Longrightarrow>
     find_client s' c \<noteq> None"
proof (induction ops arbitrary: s)
  case Nil
  then show ?case by simp
next
  case (Cons x ops)
  from Cons.prems(2) obtain s1 where s1: "step s x = Inr s1" "run s1 ops = Inr s'"
    by (auto split: sum.splits)
  from Cons.prems(3) have "x \<noteq> RemoveClient c" "RemoveClient c \<notin> set ops" by auto
  with step_present [OF Cons.prems(1) s1(1)] Cons.IH [OF _ s1(2)] show ?case by blast
qed

lemma run_unique_clients:
  "unique_clients s \<Longrightarrow> run s ops = Inr s' \<Longrightarrow> unique_clients s'"
proof (induction ops arbitrary: s)
  case Nil
  then show ?case by simp
next
  case (Cons x ops)
  from Cons.prems(2) obtain s1 where s1: "step s x = Inr s1" "run s1 ops = Inr s'"
    by (auto split: sum.splits)
  from Cons.IH [OF step_unique_clients [OF Cons.prems(1) s1(1)] s1(2)] show ?case .
qed

lemma run_initialized:
  "initialized s \<Longrightarrow> run s ops = Inr s' \<Longrightarrow> initialized s'"
proof (induction ops arbitrary: s)
  case Nil
  then show ?case by simp
next
  case (Cons x ops)
  from Cons.prems(2) obtain s1 where s1: "step s x = Inr s1" "run s1 ops = Inr s'"
    by (auto split: sum.splits)
  from Cons.IH [OF step_initialized [OF s1(1)] s1(2)] show ?case .
qed

lemma Sorter_sort_result:
  assumes "initialized s"
  shows "\<exists>order. Sorter_sort s = Inr (order, recompute_shares s) \<and>
           set order = set (active_clients s) \<and>
           (distinct (active_clients s) \<longrightarrow> distinct order)"
  using assms by (simp add: Sorter_sort_def Let_def)

lemma count_is_card:
  assumes "unique_clients s" and "initialized s"
  shows "Sorter_count s = Inr (card {d. Sorter_contains s d = Inr True})"
proof -
  have "{d. Sorter_contains s d = Inr True} = fst ` set (clients s)"
    using assms(2)
    by (auto simp: Sorter_contains_def find_client_def map_of_eq_None_iff)
  moreover have "card (fst ` set (clients s)) = length (clients s)"
    using assms(1) distinct_card [of "map fst (clients s)"]
    by (simp add: unique_clients_def)
  ultimately show ?thesis using assms(2) by (simp add: Sorter_count_def)
qed

text \<open>
  Claim C5: a client that is added while not active and is not activated by any of the
  calls that follow never appears in the output of \<^verbatim>\<open>sort()\<close>; unless it is removed,
  \<^verbatim>\<open>contains\<close> is true for it and \<^verbatim>\<open>count()\<close>, the number of clients for which \<^verbatim>\<open>contains\<close>
  is true, counts it. \<^verbatim>\<open>sort()\<close> returns exactly the active clients, each once.
\<close>

theorem added_never_activated_not_sorted:
  assumes "unique_clients s" and "\<not> is_active s c" and "Sorter_add s c = Inr s1"
    and "run s1 ops = Inr s2" and "Activate c \<notin> set ops"
  shows "\<exists>order s3. Sorter_sort s2 = Inr (order, s3) \<and> c \<notin> set order \<and>
           set order = {d. is_active s2 d} \<and> distinct order \<and>
           (RemoveClient c \<notin> set ops \<longrightarrow>
              Sorter_contains s2 c = Inr True \<and>
              (\<exists>k. Sorter_count s2 = Inr k \<and> 0 < k \<and>
                   k = card {d. Sorter_contains s2 d = Inr True}))"
proof -
  have st: "step s (AddClient c) = Inr s1" using assms(3) by simp
  from step_initialized [OF st] have i1: "initialized s1" .
  from run_initialized [OF i1 assms(4)] have i2: "initialized s2" .
  from step_unique_clients [OF assms(1) st] have "unique_clients s1" .
  from run_unique_clients [OF this assms(4)] have u2: "unique_clients s2" .
  from step_inactive [OF assms(2) st] have "\<not> is_active s1 c" by simp
  from run_inactive [OF this assms(4) assms(5)] have n2: "\<not> is_active s2 c" .
  from Sorter_sort_result [OF i2] obtain order where
    order: "Sorter_sort s2 = Inr (order, recompute_shares s2)"
      "set order = set (active_clients s2)"
      "distinct (active_clients s2) \<longrightarrow> distinct order" by blast
  from order(2) set_active_clients [OF u2] have so: "set order = {d. is_active s2 d}" by simp
  with n2 have nc: "c \<notin> set order" by simp
  from order(3) distinct_active_clients [OF u2] have d: "distinct order" by simp
  have rest: "RemoveClient c \<notin> set ops \<longrightarrow>
              Sorter_contains s2 c = Inr True \<and>
              (\<exists>k. Sorter_count s2 = Inr k \<and> 0 < k \<and>
                   k = card {d. Sorter_contains s2 d = Inr True})"
  proof
    assume nr: "RemoveClient c \<notin> set ops"
    have "find_client s1 c \<noteq> None"
      using assms(3)
      by (auto simp: Sorter_add_def find_client_def map_add_def split: if_splits)
    from run_present [OF this assms(4) nr] have p: "find_client s2 c \<noteq> None" .
    with i2 have c2: "Sorter_contains s2 c = Inr True" by (simp add: Sorter_contains_def)
    from p have "clients s2 \<noteq> []" by (auto simp: find_client_def)
    then have pos: "0 < length (clients s2)" by simp
    have cnt: "Sorter_count s2 = Inr (length (clients s2))"
      using i2 by (simp add: Sorter_count_def)
    with count_is_card [OF u2 i2]
    have "length (clients s2) = card {d. Sorter_contains s2 d = Inr True}" by simp
    with pos cnt show "Sorter_contains s2 c = Inr True \<and>
              (\<exists>k. Sorter_count s2 = Inr k \<and> 0 < k \<and>
                   k = card {d. Sorter_contains s2 d = Inr True})"
      using c2 by metis
  qed
  from order(1) nc so d rest show ?thesis by blast
qed

lemma total_recompute_shares [simp]: "total (recompute_shares s) = total s"
  by (simp add: recompute_shares_def)

lemma excluded_recompute_shares [simp]:
  "fairnessExcludeResourceNames (recompute_shares s) = fairnessExcludeResourceNames s"
  by (simp add: recompute_shares_def)

lemma weights_recompute_shares [simp]: "weights (recompute_shares s) = weights s"
  by (simp add: recompute_shares_def)

lemma client_quantities_recompute_shares [simp]:
  "client_quantities (recompute_shares s) c = client_quantities s c"
  by (simp add: client_quantities_def find_client_recompute_shares split: option.splits)

lemma contribution_recompute_shares [simp]:
  "contribution (recompute_shares s) Q name = contribution s Q name"
  by (simp add: contribution_def)

lemma share_of_recompute_shares [simp]: "share_of (recompute_shares s) Q = share_of s Q"
  by (simp add: share_of_def pool_names_def cong: if_cong)

lemma weighted_share_recompute_shares [simp]:
  "weighted_share (recompute_shares s) c = weighted_share s c"
  by (simp add: weighted_share_def dominant_share_def effective_weight_def)

lemma recompute_shares_idem: "recompute_shares (recompute_shares s) = recompute_shares s"
proof -
  let ?F = "\<lambda>(c, cl). (c, if active cl then cl\<lparr>share := weighted_share s c\<rparr> else cl)"
  have idem: "map ?F (map ?F xs) = map ?F xs" for xs :: "(string \<times> Client) list"
    by (induction xs) auto
  have c: "clients (recompute_shares s) = map ?F (clients s)"
    by (simp add: recompute_shares_def)
  have "recompute_shares (recompute_shares s) =
      (recompute_shares s)\<lparr>clients := map ?F (clients (recompute_shares s))\<rparr>"
    by (simp add: recompute_shares_def [of "recompute_shares s"] cong: if_cong)
  also have "\<dots> = (recompute_shares s)\<lparr>clients := map ?F (clients s)\<rparr>"
    by (simp only: c idem)
  also have "\<dots> = recompute_shares s"
    by (simp add: recompute_shares_def)
  finally show ?thesis .
qed

text \<open>
  Claim C7: \<^verbatim>\<open>sort()\<close> on an initialized sorter returns an order and a state (the shares
  it cached); \<^verbatim>\<open>sort()\<close> on that state, with no call in between, returns the same order
  and leaves the state as it is.
\<close>

theorem sort_twice_same_order:
  assumes "initialized s"
  shows "\<exists>order s'. Sorter_sort s = Inr (order, s') \<and> Sorter_sort s' = Inr (order, s')"
proof -
  let ?s' = "recompute_shares s"
  let ?order = "sort_key (\<lambda>c. (cached_share ?s' c, subtree_share ?s' c, c)) (active_clients ?s')"
  have 1: "Sorter_sort s = Inr (?order, ?s')"
    using assms by (simp add: Sorter_sort_def Let_def)
  have 2: "Sorter_sort ?s' = Inr (?order, ?s')"
    using assms by (simp add: Sorter_sort_def Let_def recompute_shares_idem)
  from 1 2 show ?thesis by blast
qed

lemma scenario_run_None: "run Sorter_init (scenario_ops None) = Inr (scenario_state [])"
  by (simp add: scenario_ops_def scenario_state_def Sorter_init_def operation_defs
      find_client_def update_client_def new_client_def stripped_def)

lemma scenario_run_Some:
  "run Sorter_init (scenario_ops (Some [''cpus''])) = Inr (scenario_state [''cpus''])"
  by (simp add: scenario_ops_def scenario_state_def Sorter_init_def operation_defs
      find_client_def update_client_def new_client_def stripped_def)

lemma scenario_shares:
  "dominant_share (scenario_state []) ''X'' = 8 / 10"
  "dominant_share (scenario_state []) ''Y'' = 2 / 10"
  "dominant_share (scenario_state [''cpus'']) ''X'' = 0"
  "dominant_share (scenario_state [''cpus'']) ''Y'' = 2 / 10"
  "dominant_share_all_names (scenario_state [''cpus'']) ''X'' = 8 / 10"
  "dominant_share_all_names (scenario_state [''cpus'']) ''Y'' = 2 / 10"
  by (simp_all add: dominant_share_def dominant_share_all_names_def share_of_def pool_names_def
      contribution_def quantity_def client_quantities_def find_client_def scenario_state_def)

lemma scenario_weights:
  "effective_weight (scenario_state ex) ''X'' = 1"
  "effective_weight (scenario_state ex) ''Y'' = 1"
  by (simp_all add: effective_weight_def scenario_state_def)


lemma scenario_sort_None:
  "map_sum id fst (Sorter_sort (scenario_state [])) = Inr [''Y'', ''X'']"
  by (simp add: Sorter_sort_def Let_def scenario_state_def recompute_shares_def
      active_clients_def cached_share_def find_client_def weighted_share_def
      dominant_share_def share_of_def pool_names_def contribution_def quantity_def
      client_quantities_def effective_weight_def)

lemma scenario_sort_Some:
  "map_sum id fst (Sorter_sort (scenario_state [''cpus''])) = Inr [''X'', ''Y'']"
  by (simp add: Sorter_sort_def Let_def scenario_state_def recompute_shares_def
      active_clients_def cached_share_def find_client_def weighted_share_def
      dominant_share_def share_of_def pool_names_def contribution_def quantity_def
      client_quantities_def effective_weight_def subtree_share_def subtree_allocation_def)

lemma sort_after_scenario:
  "sort_after (scenario_ops None) = Inr [''Y'', ''X'']"
  "sort_after (scenario_ops (Some [''cpus''])) = Inr [''X'', ''Y'']"
proof -
  have "sort_after ops = (case run Sorter_init ops of Inl e \<Rightarrow> Inl e
      | Inr s \<Rightarrow> map_sum id fst (Sorter_sort s))" for ops
    by (auto simp: sort_after_def split: sum.splits)
  then show "sort_after (scenario_ops None) = Inr [''Y'', ''X'']"
    "sort_after (scenario_ops (Some [''cpus''])) = Inr [''X'', ''Y'']"
    by (simp_all add: scenario_run_None scenario_run_Some scenario_sort_None scenario_sort_Some)
qed

lemma fold_max_excluding:
  fixes f :: "'a \<Rightarrow> real"
  shows "fold (\<lambda>x acc. if x \<in> E then acc else max acc (f x)) xs a =
         Max (insert a (f ` (set xs - E)))"
proof (induction xs arbitrary: a)
  case Nil
  show ?case by simp
next
  case (Cons x xs)
  show ?case
  proof (cases "x \<in> E")
    case True
    then have "set (x # xs) - E = set xs - E" by auto
    with True Cons.IH [of a] show ?thesis by simp
  next
    case False
    then have s: "set (x # xs) - E = insert x (set xs - E)" by auto
    have fin: "finite (f ` (set xs - E))" by simp
    have "Max (insert (max a (f x)) (f ` (set xs - E))) =
          Max (insert a (insert (f x) (f ` (set xs - E))))"
    proof (cases "f ` (set xs - E) = {}")
      case True
      have "Max {max a (f x)} = Max {a, f x}" by simp
      then show ?thesis unfolding True .
    next
      case ne: False
      with fin show ?thesis by (simp add: max.assoc)
    qed
    with False Cons.IH [of "max a (f x)"] s show ?thesis by simp
  qed
qed

lemma dominant_share_Max:
  "dominant_share s c =
     Max (insert 0 (contribution s (client_quantities s c) `
                      (set (pool_names s) - set (fairnessExcludeResourceNames s))))"
  unfolding dominant_share_def share_of_def by (rule fold_max_excluding)

lemma dominant_share_no_exclusion:
  "fairnessExcludeResourceNames s = [] \<Longrightarrow> dominant_share s c = dominant_share_all_names s c"
  by (simp add: dominant_share_def share_of_def dominant_share_all_names_def)

lemma cached_share_recompute_shares:
  assumes "is_active s c"
  shows "cached_share (recompute_shares s) c = weighted_share s c"
  using assms
  by (auto simp: cached_share_def is_active_def find_client_recompute_shares
           split: option.splits)

lemma sorted_first_component:
  fixes f :: "'a \<Rightarrow> real" and g :: "'a \<Rightarrow> real \<times> string"
  assumes "sorted (map (\<lambda>c. (f c, g c)) xs)"
  shows "sorted (map f xs)"
proof -
  from assms have "sorted_wrt (\<lambda>x y. (f x, g x) \<le> (f y, g y)) xs"
    by (simp add: sorted_map)
  then have "sorted_wrt (\<lambda>x y. f x \<le> f y) xs"
    by (rule sorted_wrt_mono_rel [rotated]) (auto simp: less_eq_prod_def)
  then show ?thesis by (simp add: sorted_map)
qed

lemma sorted_divide_positive:
  fixes f :: "'a \<Rightarrow> real"
  assumes "0 < w" and "sorted (map (\<lambda>c. f c / w) xs)"
  shows "sorted (map f xs)"
proof -
  from assms(2) have "sorted_wrt (\<lambda>x y. f x / w \<le> f y / w) xs"
    by (simp add: sorted_map)
  then have "sorted_wrt (\<lambda>x y. f x \<le> f y) xs"
    by (rule sorted_wrt_mono_rel [rotated]) (use assms(1) in \<open>simp add: divide_le_cancel\<close>)
  then show ?thesis by (simp add: sorted_map)
qed

lemma Sorter_sort_order:
  assumes "unique_clients s" and "initialized s"
  shows "\<exists>order. Sorter_sort s = Inr (order, recompute_shares s) \<and>
           set order = {c. is_active s c} \<and> distinct order \<and>
           sorted (map (weighted_share s) order)"
proof -
  let ?s' = "recompute_shares s"
  let ?key = "\<lambda>c. (cached_share ?s' c, subtree_share ?s' c, c)"
  let ?order = "sort_key ?key (active_clients ?s')"
  have 1: "Sorter_sort s = Inr (?order, ?s')"
    using assms(2) by (simp add: Sorter_sort_def Let_def)
  have 2: "set ?order = {c. is_active s c}"
    using set_active_clients [OF assms(1)] by simp
  have 3: "distinct ?order"
    using distinct_active_clients [OF assms(1)] by simp
  have m: "map (cached_share ?s') ?order = map (weighted_share s) ?order"
    using 2 by (intro map_cong refl cached_share_recompute_shares) blast
  have "sorted (map ?key ?order)" by (rule sorted_sort_key)
  then have "sorted (map (cached_share ?s') ?order)"
    by (rule sorted_first_component)
  then have 4: "sorted (map (weighted_share s) ?order)" unfolding m .
  from 1 2 3 4 show ?thesis by blast
qed

lemma quantity_nonneg: "positive Q \<Longrightarrow> 0 \<le> quantity Q name"
proof -
  assume p: "positive Q"
  show ?thesis
  proof (cases "map_of Q (name, [])")
    case None
    then show ?thesis by (simp add: quantity_def)
  next
    case (Some v)
    then have "((name, []), v) \<in> set Q" by (rule map_of_SomeD)
    with p have "0 < v" by (auto simp: positive_def list_all_iff)
    with Some show ?thesis by (simp add: quantity_def)
  qed
qed

lemma contribution_nonneg:
  "positive (total s) \<Longrightarrow> positive Q \<Longrightarrow> 0 \<le> contribution s Q name"
  by (simp add: contribution_def quantity_nonneg)

lemma client_quantities_positive: "wf s \<Longrightarrow> positive (client_quantities s c)"
proof -
  assume w: "wf s"
  show ?thesis
  proof (cases "find_client s c")
    case None
    then show ?thesis by (simp add: client_quantities_def positive_def)
  next
    case (Some cl)
    from wf_clientD [OF w find_client_in_clients [OF Some]] Some
    show ?thesis by (simp add: client_quantities_def wf_client_def)
  qed
qed

lemma Max_insert_zero:
  fixes S :: "real set"
  assumes "finite S" and "S \<noteq> {}" and "\<forall>x \<in> S. 0 \<le> x"
  shows "Max (insert 0 S) = Max S"
proof -
  from assms(2) obtain x where x: "x \<in> S" by blast
  with assms(3) have "0 \<le> x" by blast
  also from assms(1) x have "x \<le> Max S" by (rule Max_ge)
  finally have "0 \<le> Max S" .
  with assms(1,2) show ?thesis by (simp add: max_def)
qed

lemma dominant_share_Max_names:
  assumes "wf s"
    and "set (pool_names s) - set (fairnessExcludeResourceNames s) \<noteq> {}"
  shows "dominant_share s c =
     Max (contribution s (client_quantities s c) `
            (set (pool_names s) - set (fairnessExcludeResourceNames s)))"
proof -
  let ?S = "contribution s (client_quantities s c) `
            (set (pool_names s) - set (fairnessExcludeResourceNames s))"
  from assms(1) have t: "positive (total s)" by (simp add: wf_def)
  have "\<forall>x \<in> ?S. 0 \<le> x"
    using contribution_nonneg [OF t client_quantities_positive [OF assms(1)]] by auto
  moreover have "finite ?S" by simp
  moreover from assms(2) have "?S \<noteq> {}" by simp
  ultimately have "Max (insert 0 ?S) = Max ?S" by (rule Max_insert_zero [rotated 2])
  with dominant_share_Max [of s c] show ?thesis by simp
qed

lemma wf_unique_clients: "wf s \<Longrightarrow> unique_clients s"
  by (simp add: wf_def unique_clients_def)

lemma scenario_wf: "wf (scenario_state ex)"
  by (simp add: wf_def wf_client_def positive_def scenario_state_def)

text \<open>
  Claim C1, as amended: on an initialized, well-formed sorter \<^verbatim>\<open>sort()\<close> returns the
  active clients in ascending weighted dominant share, hence, when they all have the
  same positive weight, in ascending dominant share. The dominant share is the maximum,
  over the resource names of the pool total that \<^verbatim>\<open>initialize\<close> did not exclude, of the
  client's stripped quantity divided by the pool total's (0 for a name whose pool total
  is 0, and 0 when no name remains); with no name excluded it is the maximum over every
  name of the pool total. With nothing excluded, pool total \<^verbatim>\<open>{cpu:10, mem:10}\<close>,
  X allocated \<^verbatim>\<open>{cpu:8}\<close> (share 0.8) and Y allocated \<^verbatim>\<open>{mem:2}\<close> (share 0.2), both of
  weight 1.0, \<^verbatim>\<open>sort()\<close> returns [Y, X].
\<close>

theorem sort_ascending_weighted_share:
  assumes "wf s" and "initialized s"
  shows "(\<exists>order s'. Sorter_sort s = Inr (order, s') \<and>
            set order = {c. is_active s c} \<and> distinct order \<and>
            sorted (map (weighted_share s) order) \<and>
            (\<forall>w. 0 < w \<and> (\<forall>c \<in> set order. effective_weight s c = w) \<longrightarrow>
                 sorted (map (dominant_share s) order))) \<and>
         (\<forall>c. weighted_share s c = dominant_share s c / effective_weight s c \<and>
              dominant_share s c =
                Max (insert 0 (contribution s (client_quantities s c) `
                        (set (pool_names s) - set (fairnessExcludeResourceNames s)))) \<and>
              (set (pool_names s) - set (fairnessExcludeResourceNames s) \<noteq> {} \<longrightarrow>
                 dominant_share s c =
                   Max (contribution s (client_quantities s c) `
                          (set (pool_names s) - set (fairnessExcludeResourceNames s))))) \<and>
         (fairnessExcludeResourceNames s = [] \<longrightarrow>
            (\<forall>c. dominant_share s c = dominant_share_all_names s c)) \<and>
         sort_after (scenario_ops None) = Inr [''Y'', ''X''] \<and>
         dominant_share_after (scenario_ops None) ''X'' = Inr (8 / 10) \<and>
         dominant_share_after (scenario_ops None) ''Y'' = Inr (2 / 10)"
proof -
  from Sorter_sort_order [OF wf_unique_clients [OF assms(1)] assms(2)] obtain order where
    o: "Sorter_sort s = Inr (order, recompute_shares s)" "set order = {c. is_active s c}"
      "distinct order" "sorted (map (weighted_share s) order)" by blast
  have eq: "\<forall>w. 0 < w \<and> (\<forall>c \<in> set order. effective_weight s c = w) \<longrightarrow>
      sorted (map (dominant_share s) order)"
  proof (intro allI impI)
    fix w :: real
    assume w: "0 < w \<and> (\<forall>c \<in> set order. effective_weight s c = w)"
    then have "map (weighted_share s) order = map (\<lambda>c. dominant_share s c / w) order"
      by (intro map_cong refl) (simp add: weighted_share_def)
    with o(4) have sd: "sorted (map (\<lambda>c. dominant_share s c / w) order)" by simp
    from w have "0 < w" by simp
    from this sd show "sorted (map (dominant_share s) order)"
      by (rule sorted_divide_positive)
  qed
  have A: "\<exists>order s'. Sorter_sort s = Inr (order, s') \<and>
            set order = {c. is_active s c} \<and> distinct order \<and>
            sorted (map (weighted_share s) order) \<and>
            (\<forall>w. 0 < w \<and> (\<forall>c \<in> set order. effective_weight s c = w) \<longrightarrow>
                 sorted (map (dominant_share s) order))"
    using o eq by blast
  have B: "\<forall>c. weighted_share s c = dominant_share s c / effective_weight s c \<and>
              dominant_share s c =
                Max (insert 0 (contribution s (client_quantities s c) `
                        (set (pool_names s) - set (fairnessExcludeResourceNames s)))) \<and>
              (set (pool_names s) - set (fairnessExcludeResourceNames s) \<noteq> {} \<longrightarrow>
                 dominant_share s c =
                   Max (contribution s (client_quantities s c) `
                          (set (pool_names s) - set (fairnessExcludeResourceNames s))))"
  proof (intro allI conjI impI)
    fix c
    show "weighted_share s c = dominant_share s c / effective_weight s c"
      by (simp add: weighted_share_def)
    show "dominant_share s c =
        Max (insert 0 (contribution s (client_quantities s c) `
                (set (pool_names s) - set (fairnessExcludeResourceNames s))))"
      by (rule dominant_share_Max)
    assume "set (pool_names s) - set (fairnessExcludeResourceNames s) \<noteq> {}"
    with assms(1) show "dominant_share s c =
        Max (contribution s (client_quantities s c) `
               (set (pool_names s) - set (fairnessExcludeResourceNames s)))"
      by (rule dominant_share_Max_names)
  qed
  have C: "fairnessExcludeResourceNames s = [] \<longrightarrow>
            (\<forall>c. dominant_share s c = dominant_share_all_names s c)"
    by (simp add: dominant_share_no_exclusion)
  have D: "dominant_share_after (scenario_ops None) ''X'' = Inr (8 / 10)"
    "dominant_share_after (scenario_ops None) ''Y'' = Inr (2 / 10)"
    by (simp_all add: dominant_share_after_def scenario_run_None scenario_shares)
  show ?thesis
    by (intro conjI) (rule A B C D sort_after_scenario(1))+
qed

text \<open>
  With \<^verbatim>\<open>cpus\<close> excluded at \<^verbatim>\<open>initialize\<close> the same scenario is sorted [X, Y]: the
  maximum over every name of the pool total is still 0.8 for X and 0.2 for Y, but the
  share that orders the clients leaves \<^verbatim>\<open>cpus\<close> out and is 0 for X.
\<close>

theorem excluded_name_sort_counterexample:
  "sort_after (scenario_ops (Some [''cpus''])) = Inr [''X'', ''Y''] \<and>
   dominant_share_all_names_after (scenario_ops (Some [''cpus''])) ''X'' = Inr (8 / 10) \<and>
   dominant_share_all_names_after (scenario_ops (Some [''cpus''])) ''Y'' = Inr (2 / 10) \<and>
   dominant_share_after (scenario_ops (Some [''cpus''])) ''X'' = Inr 0 \<and>
   sort_after (scenario_ops (Some [''cpus''])) \<noteq> Inr [''Y'', ''X'']"
  by (simp add: sort_after_scenario dominant_share_all_names_after_def dominant_share_after_def
      scenario_run_Some scenario_shares)

text \<open>The ordering theorem at the scenario's state with nothing excluded.\<close>

theorem sort_ascending_weighted_share_witness:
  "wf (scenario_state []) \<and> initialized (scenario_state []) \<and>
   effective_weight (scenario_state []) ''X'' = 1 \<and>
   effective_weight (scenario_state []) ''Y'' = 1 \<and>
   fairnessExcludeResourceNames (scenario_state []) = [] \<and>
   dominant_share (scenario_state []) ''X'' = dominant_share_all_names (scenario_state []) ''X'' \<and>
   map_sum id fst (Sorter_sort (scenario_state [])) = Inr [''Y'', ''X''] \<and>
   sorted (map (dominant_share (scenario_state [])) [''Y'', ''X''])"
proof -
  note u = scenario_wf [of "[]"]
  have i: "initialized (scenario_state [])"
    and e: "fairnessExcludeResourceNames (scenario_state []) = []"
    by (simp_all add: scenario_state_def)
  note inst = sort_ascending_weighted_share [OF u i]
  from inst [THEN conjunct1] obtain order s' where
    o: "Sorter_sort (scenario_state []) = Inr (order, s')"
    and ws: "\<forall>w. 0 < w \<and> (\<forall>c \<in> set order. effective_weight (scenario_state []) c = w) \<longrightarrow>
                 sorted (map (dominant_share (scenario_state [])) order)"
    by (elim exE conjE)
  from inst [THEN conjunct2, THEN conjunct2, THEN conjunct1]
  have cl: "fairnessExcludeResourceNames (scenario_state []) = [] \<longrightarrow>
            (\<forall>c. dominant_share (scenario_state []) c = dominant_share_all_names (scenario_state []) c)" .
  from o scenario_sort_None have order: "order = [''Y'', ''X'']" by simp
  from ws [rule_format, of 1] order scenario_weights [of "[]"]
  have "sorted (map (dominant_share (scenario_state [])) [''Y'', ''X''])" by simp
  moreover from cl e
  have "dominant_share (scenario_state []) ''X'' = dominant_share_all_names (scenario_state []) ''X''"
    by blast
  ultimately show ?thesis
    using u i e scenario_weights [of "[]"] scenario_sort_None by simp
qed

lemma run_append:
  "run s (xs @ ys) = (case run s xs of Inl e \<Rightarrow> Inl e | Inr s' \<Rightarrow> run s' ys)"
  by (induction xs arbitrary: s) (auto split: sum.splits)

lemma scenario_round_trip:
  "run (scenario_state [])
     [Allocated ''X'' ''agent'' [((''cpus'', []), 1)],
      Unallocated ''X'' ''agent'' [((''cpus'', []), 1)]] = Inr (scenario_state [])"
  by (simp add: scenario_state_def Sorter_allocated_def Sorter_unallocated_def
      find_client_def update_client_def stripped_def)

text \<open>
  The round trip does not leave \<^verbatim>\<open>allocation(c, n)\<close> empty when the client already held
  resources on the node: in the scenario X holds \<^verbatim>\<open>{cpu:8}\<close> on the agent before
  \<^verbatim>\<open>{cpu:1}\<close> is allocated and unallocated, and holds \<^verbatim>\<open>{cpu:8}\<close> afterwards.
\<close>

theorem round_trip_not_empty_counterexample:
  "allocation_after
     (scenario_ops None @
        [Allocated ''X'' ''agent'' [((''cpus'', []), 1)],
         Unallocated ''X'' ''agent'' [((''cpus'', []), 1)]]) ''X'' ''agent'' =
     Inr [((''cpus'', []), 8)] \<and>
   allocation_after
     (scenario_ops None @
        [Allocated ''X'' ''agent'' [((''cpus'', []), 1)],
         Unallocated ''X'' ''agent'' [((''cpus'', []), 1)]]) ''X'' ''agent'' \<noteq> Inr []"
proof -
  have "run Sorter_init
     (scenario_ops None @
        [Allocated ''X'' ''agent'' [((''cpus'', []), 1)],
         Unallocated ''X'' ''agent'' [((''cpus'', []), 1)]]) = Inr (scenario_state [])"
    by (simp only: run_append scenario_run_None sum.case scenario_round_trip)
  then show ?thesis
    by (simp add: allocation_after_def Sorter_allocation_def scenario_state_def find_client_def)
qed

text \<open>The round trip in the scenario's state, for client X and \<^verbatim>\<open>{mem:1}\<close>.\<close>

theorem allocated_unallocated_round_trip_witness:
  "wf (scenario_state []) \<and> Sorter_contains (scenario_state []) ''X'' = Inr True \<and>
   (\<exists>s1. Sorter_allocated (scenario_state []) ''X'' ''agent'' [((''mem'', []), 1)] = Inr s1 \<and>
         Sorter_unallocated s1 ''X'' ''agent'' [((''mem'', []), 1)] = Inr (scenario_state []))"
proof -
  have c: "Sorter_contains (scenario_state []) ''X'' = Inr True"
    by (simp add: Sorter_contains_def scenario_state_def find_client_def)
  from allocated_unallocated_round_trip [OF scenario_wf c,
      of "''agent''" "[((''mem'', []), 1)]"]
  have "\<exists>s1. Sorter_allocated (scenario_state []) ''X'' ''agent'' [((''mem'', []), 1)] = Inr s1 \<and>
         Sorter_unallocated s1 ''X'' ''agent'' [((''mem'', []), 1)] = Inr (scenario_state [])"
    by blast
  with scenario_wf c show ?thesis by blast
qed

text \<open>Sorting the scenario's state twice.\<close>

theorem sort_twice_same_order_witness:
  "initialized (scenario_state []) \<and>
   (\<exists>s'. Sorter_sort (scenario_state []) = Inr ([''Y'', ''X''], s') \<and>
         Sorter_sort s' = Inr ([''Y'', ''X''], s'))"
proof -
  have i: "initialized (scenario_state [])" by (simp add: scenario_state_def)
  from sort_twice_same_order [OF i] obtain order s' where
    o: "Sorter_sort (scenario_state []) = Inr (order, s')" "Sorter_sort s' = Inr (order, s')"
    by blast
  from o(1) scenario_sort_None have "order = [''Y'', ''X'']" by simp
  with o i show ?thesis by blast
qed

text \<open>
  A third client Z added to the scenario, given an allocation and never activated,
  while X is deactivated: \<^verbatim>\<open>sort()\<close> returns Y alone and three clients are counted.
\<close>

theorem added_never_activated_not_sorted_witness:
  "unique_clients (scenario_state []) \<and> \<not> is_active (scenario_state []) ''Z'' \<and>
   Activate ''Z'' \<notin> set [Allocated ''Z'' ''agent'' [((''mem'', []), 1)], Deactivate ''X''] \<and>
   RemoveClient ''Z'' \<notin> set [Allocated ''Z'' ''agent'' [((''mem'', []), 1)], Deactivate ''X''] \<and>
   (\<exists>s1 s2 s3.
      Sorter_add (scenario_state []) ''Z'' = Inr s1 \<and>
      run s1 [Allocated ''Z'' ''agent'' [((''mem'', []), 1)], Deactivate ''X''] = Inr s2 \<and>
      Sorter_sort s2 = Inr ([''Y''], s3) \<and>
      Sorter_contains s2 ''Z'' = Inr True \<and> Sorter_count s2 = Inr 3)"
proof -
  let ?ops = "[Allocated ''Z'' ''agent'' [((''mem'', []), 1)], Deactivate ''X'']"
  have u: "unique_clients (scenario_state [])"
    by (simp add: unique_clients_def scenario_state_def)
  have n: "\<not> is_active (scenario_state []) ''Z''"
    by (simp add: is_active_def find_client_def scenario_state_def)
  have a: "Activate ''Z'' \<notin> set ?ops" and r: "RemoveClient ''Z'' \<notin> set ?ops" by simp_all
  define s1 where "s1 = (scenario_state [])\<lparr>clients := clients (scenario_state []) @ [(''Z'', new_client)]\<rparr>"
  have s1: "Sorter_add (scenario_state []) ''Z'' = Inr s1"
    by (simp add: s1_def Sorter_add_def scenario_state_def find_client_def)
  have "\<exists>s2. run s1 ?ops = Inr s2 \<and> length (clients s2) = 3 \<and>
     active_clients s2 = [''Y'']"
    by (simp add: s1_def scenario_state_def find_client_def Sorter_allocated_def
        Sorter_deactivate_def update_client_def new_client_def active_clients_def)
  then obtain s2 where s2: "run s1 ?ops = Inr s2" "length (clients s2) = 3"
    "active_clients s2 = [''Y'']" by blast
  from added_never_activated_not_sorted [OF u n s1 s2(1) a] r
  obtain order s3 where o: "Sorter_sort s2 = Inr (order, s3)" "set order = {d. is_active s2 d}"
    "distinct order" "Sorter_contains s2 ''Z'' = Inr True"
    and "\<exists>k. Sorter_count s2 = Inr k" by blast
  then have cnt: "Sorter_count s2 = Inr 3"
    using s2(2) by (auto simp: Sorter_count_def split: if_splits)
  have "order = [''Y'']"
    using o(1) s2(3) by (auto simp: Sorter_sort_def Let_def split: if_splits)
  with o cnt s1 s2(1) u n a r show ?thesis by blast
qed

lemma split_path_nonempty: "split_path p \<noteq> []"
  by (induction p) (auto split: list.splits)

lemma weight_walk_cong:
  "(\<And>j. 1 \<le> j \<Longrightarrow> j \<le> n \<Longrightarrow> W (take j path) = W' (take j path)) \<Longrightarrow>
     weight_walk W path n = weight_walk W' path n"
  by (induction n) (auto split: option.splits)

lemma weight_walk_default:
  "(\<And>j. 1 \<le> j \<Longrightarrow> j \<le> n \<Longrightarrow> W (take j path) = None) \<Longrightarrow> weight_walk W path n = 1"
  by (induction n) auto

lemma weight_walk_found:
  assumes "1 \<le> k" and "k \<le> n" and "W (take k path) = Some w"
    and "\<And>j. k < j \<Longrightarrow> j \<le> n \<Longrightarrow> W (take j path) = None"
  shows "weight_walk W path n = w"
  using assms
proof (induction n)
  case 0
  then show ?case by simp
next
  case (Suc n)
  show ?case
  proof (cases "k = Suc n")
    case True
    with Suc.prems(3) show ?thesis by simp
  next
    case False
    with Suc.prems(2) have kn: "k \<le> n" and lt: "k < Suc n" by auto
    from Suc.prems(4) [OF lt] have none: "W (take (Suc n) path) = None" by simp
    have "weight_walk W path n = w"
      by (rule Suc.IH [OF Suc.prems(1) kn Suc.prems(3)]) (simp add: Suc.prems(4))
    with none show ?thesis by simp
  qed
qed

lemma effective_weight_updated_under:
  assumes "under_path path c" and "no_override_between s path c"
  shows "effective_weight (s\<lparr>weights := (weights s)(split_path path \<mapsto> w)\<rparr>) c = w"
proof -
  let ?p = "split_path path" and ?P = "split_path c"
  from assms(1) have tk: "take (length ?p) ?P = ?p" by (simp add: under_path_def)
  have le: "length ?p \<le> length ?P"
  proof -
    have "length (take (length ?p) ?P) = length ?p" by (simp only: tk)
    then show ?thesis by simp
  qed
  have ge: "1 \<le> length ?p"
    using split_path_nonempty [of path] by (cases ?p) auto
  show ?thesis
    unfolding effective_weight_def
  proof (rule weight_walk_found [OF ge le])
    show "weights (s\<lparr>weights := (weights s)(?p \<mapsto> w)\<rparr>) (take (length ?p) ?P) = Some w"
      by (simp add: tk)
  next
    fix j assume j: "length ?p < j" "j \<le> length ?P"
    then have lj: "length (take j ?P) = j" by simp
    have "take j ?P \<noteq> ?p"
    proof
      assume "take j ?P = ?p"
      then have "length (take j ?P) = length ?p" by (rule arg_cong)
      with lj j(1) show False by simp
    qed
    with assms(2) j show "weights (s\<lparr>weights := (weights s)(?p \<mapsto> w)\<rparr>) (take j ?P) = None"
      by (simp add: no_override_between_def)
  qed
qed

lemma effective_weight_updated_elsewhere:
  assumes "\<not> under_path path c"
  shows "effective_weight (s\<lparr>weights := (weights s)(split_path path \<mapsto> w)\<rparr>) c =
         effective_weight s c"
proof -
  let ?p = "split_path path" and ?P = "split_path c"
  have "take j ?P \<noteq> ?p" if "j \<le> length ?P" for j
  proof
    assume e: "take j ?P = ?p"
    then have "length (take j ?P) = length ?p" by simp
    with that have "length ?p = j" by simp
    with e assms show False by (simp add: under_path_def)
  qed
  then show ?thesis
    unfolding effective_weight_def
    by (intro weight_walk_cong) simp
qed

lemma step_weights:
  assumes "step s x = Inr s'"
  shows "dom (weights s) \<subseteq> dom (weights s')"
    and "(\<forall>p w. x \<noteq> UpdateWeight p w) \<Longrightarrow> weights s' = weights s"
proof -
  have "dom (weights s) \<subseteq> dom (weights s') \<and>
     ((\<forall>p w. x \<noteq> UpdateWeight p w) \<longrightarrow> weights s' = weights s)"
    using assms
    by (cases x)
       (auto simp: operation_defs Let_def update_client_def recompute_shares_def
             split: if_splits option.splits)
  then show "dom (weights s) \<subseteq> dom (weights s')"
    and "(\<forall>p w. x \<noteq> UpdateWeight p w) \<Longrightarrow> weights s' = weights s" by auto
qed

lemma run_weights:
  "run s ops = Inr s' \<Longrightarrow>
     dom (weights s) \<subseteq> dom (weights s') \<and>
     ((\<forall>p w. UpdateWeight p w \<notin> set ops) \<longrightarrow> weights s' = weights s)"
proof (induction ops arbitrary: s)
  case Nil
  then show ?case by simp
next
  case (Cons x ops)
  from Cons.prems obtain s1 where s1: "step s x = Inr s1" "run s1 ops = Inr s'"
    by (auto split: sum.splits)
  from step_weights [OF s1(1)] Cons.IH [OF s1(2)] show ?case by auto
qed

lemma effective_weight_examples:
  "effective_weight_after [Initialize None, UpdateWeight ''a'' 2, AddClient ''a/b''] ''a/b'' = Inr 2"
  "effective_weight_after
     [Initialize None, UpdateWeight ''a'' 2, AddClient ''a/b'', UpdateWeight ''a/b'' 3,
      UpdateWeight ''a'' w'] ''a/b'' = Inr 3"
  by (simp_all add: effective_weight_after_def Sorter_init_def operation_defs find_client_def
      effective_weight_def)

text \<open>
  Claim C8: the effective weight of a client is the weight of the longest prefix of its
  path (the path itself included) that has an explicit entry, and 1.0 when none has.
  \<^verbatim>\<open>updateWeight(path, w)\<close> gives weight \<open>w\<close> to every client name under the path that has
  no more specific entry, whether the client is in the sorter or added later, and leaves
  the clients outside the path as they were. No sequence of calls removes an entry, and
  only \<^verbatim>\<open>updateWeight\<close> changes an effective weight. After \<^verbatim>\<open>updateWeight("a", 2.0)\<close> a
  client at \<^verbatim>\<open>"a/b"\<close> has weight 2.0; after \<^verbatim>\<open>updateWeight("a/b", 3.0)\<close> it has weight 3.0
  whatever weight \<^verbatim>\<open>"a"\<close> is given later.
\<close>

theorem effective_weight_most_specific:
  "(\<forall>k w. 1 \<le> k \<and> k \<le> length (split_path c) \<and>
          weights s (take k (split_path c)) = Some w \<and>
          (\<forall>j. k < j \<and> j \<le> length (split_path c) \<longrightarrow>
               weights s (take j (split_path c)) = None) \<longrightarrow>
          effective_weight s c = w) \<and>
   ((\<forall>j. 1 \<le> j \<and> j \<le> length (split_path c) \<longrightarrow> weights s (take j (split_path c)) = None) \<longrightarrow>
      effective_weight s c = 1) \<and>
   (\<forall>path w s'. Sorter_updateWeight s path w = Inr s' \<longrightarrow>
      (under_path path c \<and> no_override_between s path c \<longrightarrow> effective_weight s' c = w) \<and>
      (\<not> under_path path c \<longrightarrow> effective_weight s' c = effective_weight s c)) \<and>
   (\<forall>ops s'. run s ops = Inr s' \<longrightarrow>
      dom (weights s) \<subseteq> dom (weights s') \<and>
      ((\<forall>p w. UpdateWeight p w \<notin> set ops) \<longrightarrow> effective_weight s' c = effective_weight s c)) \<and>
   effective_weight_after [Initialize None, UpdateWeight ''a'' 2, AddClient ''a/b''] ''a/b'' =
     Inr 2 \<and>
   (\<forall>w'. effective_weight_after
           [Initialize None, UpdateWeight ''a'' 2, AddClient ''a/b'', UpdateWeight ''a/b'' 3,
            UpdateWeight ''a'' w'] ''a/b'' = Inr 3)"
proof -
  have A: "\<forall>k w. 1 \<le> k \<and> k \<le> length (split_path c) \<and>
          weights s (take k (split_path c)) = Some w \<and>
          (\<forall>j. k < j \<and> j \<le> length (split_path c) \<longrightarrow>
               weights s (take j (split_path c)) = None) \<longrightarrow>
          effective_weight s c = w"
    unfolding effective_weight_def by (auto intro: weight_walk_found)
  have B: "(\<forall>j. 1 \<le> j \<and> j \<le> length (split_path c) \<longrightarrow>
             weights s (take j (split_path c)) = None) \<longrightarrow> effective_weight s c = 1"
    unfolding effective_weight_def by (auto intro: weight_walk_default)
  have C: "\<forall>path w s'. Sorter_updateWeight s path w = Inr s' \<longrightarrow>
      (under_path path c \<and> no_override_between s path c \<longrightarrow> effective_weight s' c = w) \<and>
      (\<not> under_path path c \<longrightarrow> effective_weight s' c = effective_weight s c)"
    by (auto simp: Sorter_updateWeight_def effective_weight_updated_under
        effective_weight_updated_elsewhere split: if_splits)
  have D: "\<forall>ops s'. run s ops = Inr s' \<longrightarrow>
      dom (weights s) \<subseteq> dom (weights s') \<and>
      ((\<forall>p w. UpdateWeight p w \<notin> set ops) \<longrightarrow> effective_weight s' c = effective_weight s c)"
  proof (intro allI impI)
    fix ops s'
    assume "run s ops = Inr s'"
    from run_weights [OF this]
    show "dom (weights s) \<subseteq> dom (weights s') \<and>
      ((\<forall>p w. UpdateWeight p w \<notin> set ops) \<longrightarrow> effective_weight s' c = effective_weight s c)"
      by (auto simp: effective_weight_def)
  qed
  have E: "\<forall>w'. effective_weight_after
           [Initialize None, UpdateWeight ''a'' 2, AddClient ''a/b'', UpdateWeight ''a/b'' 3,
            UpdateWeight ''a'' w'] ''a/b'' = Inr 3"
    by (simp add: effective_weight_examples(2))
  show ?thesis
    by (intro conjI) (rule A B C D E effective_weight_examples(1))+
qed

text \<open>Setting the weight of path \<^verbatim>\<open>"a"\<close> in the scenario's state.\<close>

theorem effective_weight_most_specific_witness:
  "Sorter_updateWeight (scenario_state []) ''a'' 2 =
     Inr ((scenario_state [])\<lparr>weights := [[''a''] \<mapsto> 2]\<rparr>) \<and>
   under_path ''a'' ''a/b'' \<and> no_override_between (scenario_state []) ''a'' ''a/b'' \<and>
   effective_weight (scenario_state []) ''a/b'' = 1 \<and>
   effective_weight ((scenario_state [])\<lparr>weights := [[''a''] \<mapsto> 2]\<rparr>) ''a/b'' = 2 \<and>
   \<not> under_path ''a'' ''X'' \<and>
   effective_weight ((scenario_state [])\<lparr>weights := [[''a''] \<mapsto> 2]\<rparr>) ''X'' =
     effective_weight (scenario_state []) ''X''"
proof -
  let ?s = "scenario_state []" and ?s' = "(scenario_state [])\<lparr>weights := [[''a''] \<mapsto> 2]\<rparr>"
  have u: "Sorter_updateWeight ?s ''a'' 2 = Inr ?s'"
    by (simp add: Sorter_updateWeight_def scenario_state_def)
  have p: "under_path ''a'' ''a/b''" and q: "\<not> under_path ''a'' ''X''"
    by (simp_all add: under_path_def)
  have n: "no_override_between ?s ''a'' ''a/b''"
    by (simp add: no_override_between_def scenario_state_def)
  have d: "\<forall>j. 1 \<le> j \<and> j \<le> length (split_path ''a/b'') \<longrightarrow>
      weights ?s (take j (split_path ''a/b'')) = None"
    by (simp add: scenario_state_def)
  from effective_weight_most_specific [of "''a/b''" ?s] d
  have 1: "effective_weight ?s ''a/b'' = 1" by blast
  from effective_weight_most_specific [of "''a/b''" ?s] u p n
  have 2: "effective_weight ?s' ''a/b'' = 2" by blast
  from effective_weight_most_specific [of "''X''" ?s] u q
  have 3: "effective_weight ?s' ''X'' = effective_weight ?s ''X''" by blast
  from u p q n 1 2 3 show ?thesis by blast
qed

end
